theory Spec2Isabelle
  imports Main "HOL-Library.Multiset"
begin

unbundle bit_operations_syntax

section \<open>The frame descriptor registry of runtime/frame\_descriptors.c\<close>

text \<open>
  The registry is an open-addressed hash table (linear probing) from return addresses to
  pointers to frame descriptors, together with the list of frametables it was built from.
  The embedding is sequential: one call runs at a time, so the mutex, the fences and the
  atomic accesses are the plain reads and writes they protect.
\<close>

subsection \<open>Pointers, memory and errors\<close>

text \<open>
  A slot of the table holds a pointer to a \<^verbatim>\<open>frame_descr\<close>: the null pointer, the address of
  the static placeholder \<^verbatim>\<open>dummy_descr\<close>, or the address of a descriptor inside a frametable.
  The descriptors are numbered, and \<open>Descr d\<close> is the pointer to descriptor \<open>d\<close>: two pointers
  are equal when they point to the same descriptor.
\<close>

datatype frame_ptr = NULL | Dummy_descr | Descr nat

text \<open>
  What the C code can do besides returning: \<^verbatim>\<open>caml_raise_out_of_memory\<close>, a read or write
  through a null pointer or outside the slot array, and a table size that the \<^verbatim>\<open>int\<close> field
  \<^verbatim>\<open>mask\<close> cannot describe (see \<open>realloc_frame_descriptors\<close>). A loop that does not end is
  the value \<open>None\<close>.
\<close>

datatype error = Out_of_memory | Memory_fault | Int_overflow

type_synonym 'a result = "(error + 'a) option"

text \<open>
  The surroundings of the registry, which it only reads:
  \<^item> \<open>hash_bits\<close>: the hash of a return address before it is masked (see \<open>Hash_retaddr\<close>);
  \<^item> \<open>frametable_at\<close>: the memory of the frametables. A frametable is a count followed by that
    many descriptors of variable length, walked with \<^verbatim>\<open>next_frame_descr\<close>; \<open>frametable_at E t\<close>
    is the list of the descriptors of the frametable at handle \<open>t\<close>, in the order of the
    walk, and its length is the count \<^verbatim>\<open>*tbl\<close>;
  \<^item> \<open>retaddr_at\<close>: the field \<^verbatim>\<open>retaddr\<close> of a descriptor;
  \<^item> \<open>dummy_retaddr\<close>: the field \<^verbatim>\<open>retaddr\<close> of \<^verbatim>\<open>dummy_descr\<close>, which is its own address;
  \<^item> \<open>stat_alloc\<close>: whether \<^verbatim>\<open>caml_stat_alloc_noexc\<close> returns a block for that many slots.
\<close>

record env =
  hash_bits :: "nat \<Rightarrow> nat"
  frametable_at :: "nat \<Rightarrow> nat list"
  retaddr_at :: "nat \<Rightarrow> nat"
  dummy_retaddr :: nat
  stat_alloc :: "nat \<Rightarrow> bool"

text \<open>\<^verbatim>\<open>d->retaddr\<close>. Every caller tests \<open>d\<close> against \<open>NULL\<close> first.\<close>

fun retaddr :: "env \<Rightarrow> frame_ptr \<Rightarrow> nat" where
  "retaddr E (Descr a) = retaddr_at E a"
| "retaddr E Dummy_descr = dummy_retaddr E"
| "retaddr E NULL = undefined"

subsection \<open>The table\<close>

text \<open>
  \<^verbatim>\<open>struct caml_frame_descrs\<close>. The array \<open>descriptors\<close> is the list of its slots (the empty
  list for the null pointer of the initial value), \<open>frametables\<close> the linked list of the
  handles of the registered frametables.
\<close>

record caml_frame_descrs =
  num_descr :: int
  mask :: int
  descriptors :: "frame_ptr list"
  frametables :: "nat list"

definition capacity :: "caml_frame_descrs \<Rightarrow> int" where
  "capacity table = mask table + 1"

text \<open>\<^verbatim>\<open>static caml_frame_descrs current_frame_descrs = { 0, -1, NULL, NULL }\<close>\<close>

definition current_frame_descrs_init :: caml_frame_descrs where
  "current_frame_descrs_init =
     \<lparr>num_descr = 0, mask = - 1, descriptors = [], frametables = []\<rparr>"

text \<open>
  Modelled from the spec: the macro \<^verbatim>\<open>Hash_retaddr\<close> comes from caml/frame\_descriptors.h,
  which is not among the sources. The spec has it as a hash of the return address reduced
  modulo the capacity by the bitmask; the hash is the parameter \<open>hash_bits\<close>. The mask is a
  C \<^verbatim>\<open>int\<close> converted to \<^verbatim>\<open>uintnat\<close>, so a negative mask keeps the bits of the hash.
\<close>

definition Hash_retaddr :: "env \<Rightarrow> nat \<Rightarrow> int \<Rightarrow> nat" where
  "Hash_retaddr E addr m = nat (int (hash_bits E addr) AND m)"

text \<open>\<^verbatim>\<open>(h+1) & mask\<close>\<close>

definition next_slot :: "nat \<Rightarrow> int \<Rightarrow> nat" where
  "next_slot h m = nat (int (h + 1) AND m)"

text \<open>\<^verbatim>\<open>atomic_load_relaxed(table->descriptors + h)\<close> and the store at the same place.\<close>

definition load_slot :: "caml_frame_descrs \<Rightarrow> nat \<Rightarrow> error + frame_ptr" where
  "load_slot table h =
     (if h < length (descriptors table) then Inr (descriptors table ! h) else Inl Memory_fault)"

definition store_slot :: "caml_frame_descrs \<Rightarrow> nat \<Rightarrow> frame_ptr \<Rightarrow> caml_frame_descrs" where
  "store_slot table h p = table\<lparr>descriptors := (descriptors table)[h := p]\<rparr>"

text \<open>\<^verbatim>\<open>count_descriptors\<close>: the sum of the counts of the frametables of a list.\<close>

fun count_descriptors :: "env \<Rightarrow> nat list \<Rightarrow> int" where
  "count_descriptors E [] = 0"
| "count_descriptors E (cur # list) =
     int (length (frametable_at E cur)) + count_descriptors E list"

subsection \<open>Insertion: fill\_hashtable\<close>

text \<open>
  The inner \<^verbatim>\<open>while (e != NULL && e != &dummy_descr)\<close>: from slot \<open>h\<close>, the first slot that
  is free. The store after the loop goes to a slot the loop has just loaded.
\<close>

partial_function (option) probe_free :: "caml_frame_descrs \<Rightarrow> nat \<Rightarrow> nat result" where
  "probe_free table h =
     (case load_slot table h of
        Inl err \<Rightarrow> Some (Inl err)
      | Inr e \<Rightarrow>
          if e \<noteq> NULL \<and> e \<noteq> Dummy_descr then probe_free table (next_slot h (mask table))
          else Some (Inr h))"

declare probe_free.simps [code]

text \<open>One turn of the \<^verbatim>\<open>for\<close> loop over the descriptors of a frametable.\<close>

definition insert_descr :: "env \<Rightarrow> caml_frame_descrs \<Rightarrow> nat \<Rightarrow> caml_frame_descrs result" where
  "insert_descr E table d =
     (case probe_free table (Hash_retaddr E (retaddr_at E d) (mask table)) of
        None \<Rightarrow> None
      | Some (Inl err) \<Rightarrow> Some (Inl err)
      | Some (Inr h) \<Rightarrow> Some (Inr (store_slot table h (Descr d))))"

fun fill_frametable :: "env \<Rightarrow> caml_frame_descrs \<Rightarrow> nat list \<Rightarrow> caml_frame_descrs result" where
  "fill_frametable E table [] = Some (Inr table)"
| "fill_frametable E table (d # ds) =
     (case insert_descr E table d of
        None \<Rightarrow> None
      | Some (Inl err) \<Rightarrow> Some (Inl err)
      | Some (Inr table') \<Rightarrow> fill_frametable E table' ds)"

fun fill_hashtable :: "env \<Rightarrow> caml_frame_descrs \<Rightarrow> nat list \<Rightarrow> caml_frame_descrs result" where
  "fill_hashtable E table [] = Some (Inr table)"
| "fill_hashtable E table (cur # new_frametables) =
     (case fill_frametable E table (frametable_at E cur) of
        None \<Rightarrow> None
      | Some (Inl err) \<Rightarrow> Some (Inl err)
      | Some (Inr table') \<Rightarrow> fill_hashtable E table' new_frametables)"

subsection \<open>Building the table: realloc\_frame\_descriptors\<close>

text \<open>\<^verbatim>\<open>while (tblsize < 2 * num_descr) tblsize *= 2;\<close>\<close>

partial_function (option) grow_tblsize :: "int \<Rightarrow> int \<Rightarrow> int option" where
  "grow_tblsize tblsize n =
     (if tblsize < 2 * n then grow_tblsize (tblsize * 2) n else Some tblsize)"

declare grow_tblsize.simps [code]

text \<open>
  The counts are \<^verbatim>\<open>intnat\<close> in the function and \<^verbatim>\<open>int\<close> in the table. They are integers
  here. A size above \<open>2 ^ 30\<close> is where the C types stop describing the table (\<open>mask + 1\<close>
  is no \<^verbatim>\<open>int\<close> any more at \<open>2 ^ 31\<close>): there the model ends with \<open>Int_overflow\<close>, so that a
  table it returns is a table of the C code.
\<close>

definition realloc_frame_descriptors ::
    "env \<Rightarrow> caml_frame_descrs \<Rightarrow> nat list \<Rightarrow> caml_frame_descrs result" where
  "realloc_frame_descriptors E table new_frametables =
     (let num_descr = count_descriptors E new_frametables in
      case grow_tblsize 4 num_descr of
        None \<Rightarrow> None
      | Some tblsize \<Rightarrow>
          if 2 ^ 30 < tblsize then Some (Inl Int_overflow)
          else if \<not> stat_alloc E (nat tblsize) then Some (Inl Out_of_memory)
          else
            (case fill_hashtable E
                    \<lparr>num_descr = num_descr, mask = tblsize - 1,
                     descriptors = replicate (nat tblsize) NULL,
                     frametables = frametables table\<rparr>
                    new_frametables of
               None \<Rightarrow> None
             | Some (Inl err) \<Rightarrow> Some (Inl err)
             | Some (Inr table') \<Rightarrow> Some (Inr (table'\<lparr>frametables := new_frametables\<rparr>))))"

text \<open>
  \<^verbatim>\<open>caml_init_frame_descriptors\<close>: the null-terminated array \<^verbatim>\<open>caml_frametable\<close> is the list
  of its entries; \<^verbatim>\<open>cons\<close> puts each one in front, so the list is the array reversed. The
  nodes come from \<^verbatim>\<open>caml_stat_alloc\<close>, which is taken to return one each time.
\<close>

definition caml_init_frame_descriptors :: "env \<Rightarrow> nat list \<Rightarrow> caml_frame_descrs result" where
  "caml_init_frame_descriptors E caml_frametable =
     realloc_frame_descriptors E current_frame_descrs_init (rev caml_frametable)"

subsection \<open>Registration\<close>

text \<open>
  \<^verbatim>\<open>realloc_request\<close>. The field \<^verbatim>\<open>table\<close> is always the global table and \<^verbatim>\<open>tail\<close> the last
  node of \<^verbatim>\<open>new_frametables\<close> (null for the empty list), so the record keeps the other two.
\<close>

record realloc_request =
  new_frametables :: "nat list"
  increase :: int

text \<open>
  \<^verbatim>\<open>tail->next = table->frametables\<close>, where \<open>tail\<close> is the last node of the new list: the
  new list followed by the list of the table; a null \<open>tail\<close> cannot be written through.
\<close>

definition link_tail :: "nat list \<Rightarrow> nat list \<Rightarrow> error + nat list" where
  "link_tail new_fts old_fts = (if new_fts = [] then Inl Memory_fault else Inr (new_fts @ old_fts))"

text \<open>
  The fold of the fast path, which \<^verbatim>\<open>add_frame_descriptors\<close> and the rendezvous body both
  have: add to the count, insert into the array in place, link the lists.
\<close>

definition fold_frametables ::
    "env \<Rightarrow> caml_frame_descrs \<Rightarrow> nat list \<Rightarrow> int \<Rightarrow> caml_frame_descrs result" where
  "fold_frametables E table new_fts incr =
     (case fill_hashtable E (table\<lparr>num_descr := num_descr table + incr\<rparr>) new_fts of
        None \<Rightarrow> None
      | Some (Inl err) \<Rightarrow> Some (Inl err)
      | Some (Inr table') \<Rightarrow>
          (case link_tail new_fts (frametables table') of
             Inl err \<Rightarrow> Some (Inl err)
           | Inr merged \<Rightarrow> Some (Inr (table'\<lparr>frametables := merged\<rparr>))))"

text \<open>
  \<^verbatim>\<open>realloc_frame_descriptors_from_stw_single\<close>, the body that the one elected domain runs
  between \<^verbatim>\<open>caml_global_barrier_begin\<close> and \<^verbatim>\<open>caml_global_barrier_end\<close>. The table is the
  one found at that time, which need not be the one the request was made for.
\<close>

definition realloc_frame_descriptors_from_stw_single ::
    "env \<Rightarrow> caml_frame_descrs \<Rightarrow> realloc_request \<Rightarrow> caml_frame_descrs result" where
  "realloc_frame_descriptors_from_stw_single E table request =
     (let tblsize = capacity table; incr = increase request in
      if tblsize < (num_descr table + incr) * 2 then
        (case link_tail (new_frametables request) (frametables table) of
           Inl err \<Rightarrow> Some (Inl err)
         | Inr merged \<Rightarrow> realloc_frame_descriptors E table merged)
      else fold_frametables E table (new_frametables request) incr)"

text \<open>
  \<^verbatim>\<open>add_frame_descriptors\<close>. The slow path hands the request to
  \<^verbatim>\<open>caml_try_run_on_all_domains\<close> until it has run; with one call at a time the body runs
  once, on the table that was tested.
\<close>

definition add_frame_descriptors ::
    "env \<Rightarrow> caml_frame_descrs \<Rightarrow> nat list \<Rightarrow> caml_frame_descrs result" where
  "add_frame_descriptors E table new_fts =
     (let incr = count_descriptors E new_fts; tblsize = capacity table in
      if tblsize < (num_descr table + incr) * 2 then
        realloc_frame_descriptors_from_stw_single E table
          \<lparr>new_frametables = new_fts, increase = incr\<rparr>
      else fold_frametables E table new_fts incr)"

text \<open>
  \<^verbatim>\<open>caml_register_frametables(frametables, ntables)\<close>: the first \<open>ntables\<close> entries of the
  caller's array, each put in front of the list. A count that is negative in C is the count
  0 here; a count beyond the array reads outside it.
\<close>

definition caml_register_frametables ::
    "env \<Rightarrow> caml_frame_descrs \<Rightarrow> nat list \<Rightarrow> nat \<Rightarrow> caml_frame_descrs result" where
  "caml_register_frametables E table fts ntables =
     (if length fts < ntables then Some (Inl Memory_fault)
      else add_frame_descriptors E table (rev (take ntables fts)))"

definition caml_register_frametable :: "env \<Rightarrow> caml_frame_descrs \<Rightarrow> nat \<Rightarrow> caml_frame_descrs result" where
  "caml_register_frametable E table ft = caml_register_frametables E table [ft] 1"

subsection \<open>Removal\<close>

text \<open>\<^verbatim>\<open>invalid_entry\<close>: probe from the hash of \<open>e\<close> to the slot that holds \<open>e\<close> itself.\<close>

partial_function (option) invalid_loop ::
    "caml_frame_descrs \<Rightarrow> nat \<Rightarrow> nat \<Rightarrow> caml_frame_descrs result" where
  "invalid_loop fds e h =
     (case load_slot fds h of
        Inl err \<Rightarrow> Some (Inl err)
      | Inr d \<Rightarrow>
          if d = Descr e then Some (Inr (store_slot fds h Dummy_descr))
          else invalid_loop fds e (next_slot h (mask fds)))"

declare invalid_loop.simps [code]

definition invalid_entry :: "env \<Rightarrow> caml_frame_descrs \<Rightarrow> nat \<Rightarrow> caml_frame_descrs result" where
  "invalid_entry E fds e = invalid_loop fds e (Hash_retaddr E (retaddr_at E e) (mask fds))"

text \<open>The two nested loops at the head of \<^verbatim>\<open>remove_frame_descriptors\<close>.\<close>

fun invalid_frametable :: "env \<Rightarrow> caml_frame_descrs \<Rightarrow> nat list \<Rightarrow> caml_frame_descrs result" where
  "invalid_frametable E fds [] = Some (Inr fds)"
| "invalid_frametable E fds (descr # ds) =
     (case invalid_entry E fds descr of
        None \<Rightarrow> None
      | Some (Inl err) \<Rightarrow> Some (Inl err)
      | Some (Inr fds') \<Rightarrow> invalid_frametable E fds' ds)"

fun invalid_frametables :: "env \<Rightarrow> caml_frame_descrs \<Rightarrow> nat list \<Rightarrow> caml_frame_descrs result" where
  "invalid_frametables E fds [] = Some (Inr fds)"
| "invalid_frametables E fds (frametable # fts) =
     (case invalid_frametable E fds (frametable_at E frametable) of
        None \<Rightarrow> None
      | Some (Inl err) \<Rightarrow> Some (Inl err)
      | Some (Inr fds') \<Rightarrow> invalid_frametables E fds' fts)"

text \<open>
  The inner \<^verbatim>\<open>for (int i = 0; i < ntables; i++)\<close> of the unlinking loop: the first index
  below \<open>ntables\<close> whose entry is the frametable of the current node.
\<close>

fun first_match :: "nat \<Rightarrow> nat list \<Rightarrow> nat \<Rightarrow> nat \<Rightarrow> nat option" where
  "first_match ft fts i 0 = None"
| "first_match ft fts i (Suc k) =
     (if fts ! i = ft then Some i else first_match ft fts (Suc i) k)"

text \<open>
  The unlinking loop. \<open>kept\<close> are the nodes already passed (the last one first), the second
  list starts at \<^verbatim>\<open>current\<close>, \<open>fts\<close> is the caller's array and \<open>ntables\<close> the running count.
  On a match the node is dropped, the count decremented, and unless it is 0 the last entry
  in use is copied over the matched one and the loop resumes at the next node without
  testing it against null.
\<close>

fun unlink_frametables ::
    "nat list \<Rightarrow> nat list \<Rightarrow> nat list \<Rightarrow> nat \<Rightarrow> error + (nat list \<times> nat list)" where
  "unlink_frametables kept [] fts ntables = Inr (rev kept, fts)"
| "unlink_frametables kept (current # rest) fts ntables =
     (case first_match current fts 0 ntables of
        None \<Rightarrow> unlink_frametables (current # kept) rest fts ntables
      | Some i \<Rightarrow>
          if ntables - 1 = 0 then Inr (rev kept @ rest, fts)
          else if rest = [] then Inl Memory_fault
          else unlink_frametables kept rest (fts[i := fts ! (ntables - 1)]) (ntables - 1))"

text \<open>
  \<^verbatim>\<open>remove_frame_descriptors\<close>. It returns the table and the caller's array, which it
  writes. The wait at its end reads the counter \<^verbatim>\<open>frame_readers\<close>, which is 0 whenever no
  \<^verbatim>\<open>caml_find_frame_descr\<close> is under way: with one call at a time the first read ends it.
\<close>

definition remove_frame_descriptors ::
    "env \<Rightarrow> caml_frame_descrs \<Rightarrow> nat list \<Rightarrow> nat \<Rightarrow> (caml_frame_descrs \<times> nat list) result" where
  "remove_frame_descriptors E fds fts ntables =
     (if length fts < ntables then Some (Inl Memory_fault)
      else
        (case invalid_frametables E fds (take ntables fts) of
           None \<Rightarrow> None
         | Some (Inl err) \<Rightarrow> Some (Inl err)
         | Some (Inr fds') \<Rightarrow>
             (let decrease = count_descriptors E (take ntables fts);
                  fds'' = fds'\<lparr>num_descr := num_descr fds' - decrease\<rparr> in
              case unlink_frametables [] (frametables fds'') fts ntables of
                Inl err \<Rightarrow> Some (Inl err)
              | Inr (list, fts') \<Rightarrow> Some (Inr (fds''\<lparr>frametables := list\<rparr>, fts')))))"

definition caml_unregister_frametables ::
    "env \<Rightarrow> caml_frame_descrs \<Rightarrow> nat list \<Rightarrow> nat \<Rightarrow> (caml_frame_descrs \<times> nat list) result" where
  "caml_unregister_frametables E fds fts ntables = remove_frame_descriptors E fds fts ntables"

definition caml_unregister_frametable ::
    "env \<Rightarrow> caml_frame_descrs \<Rightarrow> nat \<Rightarrow> (caml_frame_descrs \<times> nat list) result" where
  "caml_unregister_frametable E fds ft = caml_unregister_frametables E fds [ft] 1"

subsection \<open>Lookup\<close>

text \<open>
  The loop of \<^verbatim>\<open>caml_find_frame_descr\<close>. The counter \<^verbatim>\<open>frame_readers\<close> goes up by one before
  it and down by one after it, and nothing else reads it meanwhile.
\<close>

partial_function (option) find_loop ::
    "env \<Rightarrow> caml_frame_descrs \<Rightarrow> nat \<Rightarrow> nat \<Rightarrow> frame_ptr result" where
  "find_loop E fds pc h =
     (case load_slot fds h of
        Inl err \<Rightarrow> Some (Inl err)
      | Inr d \<Rightarrow>
          if d = NULL then Some (Inr d)
          else if retaddr E d = pc then Some (Inr d)
          else find_loop E fds pc (next_slot h (mask fds)))"

declare find_loop.simps [code]

definition caml_find_frame_descr :: "env \<Rightarrow> caml_frame_descrs \<Rightarrow> nat \<Rightarrow> frame_ptr result" where
  "caml_find_frame_descr E fds pc = find_loop E fds pc (Hash_retaddr E pc (mask fds))"


subsection \<open>Reachable states\<close>

text \<open>
  The states of the registry: the static initial value, and what the entry points and the
  rendezvous body return from a state of the registry, with any arguments.
\<close>

inductive reachable :: "env \<Rightarrow> caml_frame_descrs \<Rightarrow> bool" for E :: env where
  reachable_static: "reachable E current_frame_descrs_init"
| reachable_init:
    "caml_init_frame_descriptors E caml_frametable = Some (Inr table) \<Longrightarrow> reachable E table"
| reachable_register:
    "reachable E table \<Longrightarrow> caml_register_frametables E table fts ntables = Some (Inr table')
     \<Longrightarrow> reachable E table'"
| reachable_stw:
    "reachable E table \<Longrightarrow> realloc_frame_descriptors_from_stw_single E table request = Some (Inr table')
     \<Longrightarrow> reachable E table'"
| reachable_unregister:
    "reachable E table \<Longrightarrow> caml_unregister_frametables E table fts ntables = Some (Inr (table', fts'))
     \<Longrightarrow> reachable E table'"

subsection \<open>Notions for the properties\<close>

text \<open>The loops change slots only: the header of the table and the size of the array stay.\<close>

definition same_header :: "caml_frame_descrs \<Rightarrow> caml_frame_descrs \<Rightarrow> bool" where
  "same_header t t' \<longleftrightarrow>
     mask t' = mask t \<and> num_descr t' = num_descr t \<and> frametables t' = frametables t
     \<and> length (descriptors t') = length (descriptors t)"

text \<open>
  The two invariants that the comment at the head of the file states of the sizes:
  the capacity is 0 or a power of 2, and twice the number of descriptors fits in it.
\<close>

definition size_invariants :: "caml_frame_descrs \<Rightarrow> bool" where
  "size_invariants table \<longleftrightarrow>
     (capacity table = 0 \<or> (\<exists>k. capacity table = 2 ^ k))
     \<and> (0 < capacity table \<longrightarrow> num_descr table * 2 \<le> capacity table)"

text \<open>The descriptors of the frametables of a list, in the order in which the loops walk them.\<close>

definition active :: "env \<Rightarrow> nat list \<Rightarrow> nat list" where
  "active E fts = concat (map (frametable_at E) fts)"

text \<open>
  \<open>tombstoned R t t'\<close>: the array of \<open>t'\<close> is the array of \<open>t\<close> except that slots which held
  a descriptor of \<open>R\<close> may hold the placeholder.
\<close>

definition tombstoned :: "nat set \<Rightarrow> caml_frame_descrs \<Rightarrow> caml_frame_descrs \<Rightarrow> bool" where
  "tombstoned R t t' \<longleftrightarrow>
     mask t' = mask t \<and> length (descriptors t') = length (descriptors t)
     \<and> (\<forall>q < length (descriptors t).
           descriptors t' ! q = descriptors t ! q
           \<or> (descriptors t' ! q = Dummy_descr \<and> (\<exists>e\<in>R. descriptors t ! q = Descr e)))"

text \<open>The descriptors that lie in the slots of an array, slot by slot.\<close>

fun lives :: "frame_ptr list \<Rightarrow> nat list" where
  "lives [] = []"
| "lives (Descr d # xs) = d # lives xs"
| "lives (NULL # xs) = lives xs"
| "lives (Dummy_descr # xs) = lives xs"

text \<open>
  The shape that a build gives the table: the array has \<open>2 ^ k\<close> slots and the mask is
  \<open>2 ^ k - 1\<close>.
\<close>

definition table_shape :: "caml_frame_descrs \<Rightarrow> bool" where
  "table_shape t \<longleftrightarrow> (\<exists>k. mask t = 2 ^ k - 1 \<and> length (descriptors t) = 2 ^ k)"

text \<open>The slot where the probes for a descriptor start, and the \<open>i\<close>-th slot probed from \<open>h\<close>.\<close>

definition home :: "env \<Rightarrow> caml_frame_descrs \<Rightarrow> nat \<Rightarrow> nat" where
  "home E t d = Hash_retaddr E (retaddr_at E d) (mask t)"

definition probe_slot :: "caml_frame_descrs \<Rightarrow> nat \<Rightarrow> nat \<Rightarrow> nat" where
  "probe_slot t h i = (h + i) mod length (descriptors t)"

text \<open>
  Every descriptor in the array is met by the probes from its home slot before they meet a
  null slot.
\<close>

definition chain_ok :: "env \<Rightarrow> caml_frame_descrs \<Rightarrow> bool" where
  "chain_ok E t \<longleftrightarrow>
     (\<forall>p < length (descriptors t). \<forall>d. descriptors t ! p = Descr d \<longrightarrow>
        (\<exists>n. probe_slot t (home E t d) n = p
           \<and> (\<forall>i < n. descriptors t ! probe_slot t (home E t d) i \<noteq> NULL)))"

text \<open>
  A registry in order: the table has the shape of a build, the count is the number of
  descriptors of the frametables in the list and twice the count fits in the array, the
  array holds exactly these descriptors, each as often as the list has it, and each can be
  found from its home slot.
\<close>

definition registry_ok :: "env \<Rightarrow> caml_frame_descrs \<Rightarrow> bool" where
  "registry_ok E t \<longleftrightarrow>
     table_shape t
     \<and> num_descr t = int (length (active E (frametables t)))
     \<and> 2 * num_descr t \<le> int (length (descriptors t))
     \<and> mset (lives (descriptors t)) = mset (active E (frametables t))
     \<and> chain_ok E t"

text \<open>
  The states that the registry takes when it is used as meant: it is initialized first, and
  only frametables that are in its list are removed.
\<close>

inductive registry_state :: "env \<Rightarrow> caml_frame_descrs \<Rightarrow> bool" for E :: env where
  registry_init:
    "caml_init_frame_descriptors E caml_frametable = Some (Inr table) \<Longrightarrow> registry_state E table"
| registry_register:
    "registry_state E table \<Longrightarrow> caml_register_frametables E table fts ntables = Some (Inr table')
     \<Longrightarrow> registry_state E table'"
| registry_unregister:
    "registry_state E table \<Longrightarrow> mset (take ntables fts) \<subseteq># mset (frametables table)
     \<Longrightarrow> caml_unregister_frametables E table fts ntables = Some (Inr (table', fts'))
     \<Longrightarrow> registry_state E table'"

subsection \<open>Sample data\<close>

text \<open>
  A memory with six frametables, at the handles 1 to 6, of 4, 4, 3, 12, 1 and 2 descriptors.
  Descriptor \<open>d\<close> has the return address \<open>4096 + 8 * d\<close>, and the hash drops the three low
  bits of a return address.
\<close>

definition sample_env :: env where
  "sample_env =
     \<lparr>hash_bits = (\<lambda>a. drop_bit 3 a),
      frametable_at = (\<lambda>t. if t = 1 then [0, 1, 2, 3] else if t = 2 then [4, 5, 6, 7]
         else if t = 3 then [10, 11, 12]
         else if t = 4 then [20, 21, 22, 23, 24, 25, 26, 27, 28, 29, 30, 31]
         else if t = 5 then [42] else if t = 6 then [42, 74] else []),
      retaddr_at = (\<lambda>d. 4096 + 8 * d),
      dummy_retaddr = 99,
      stat_alloc = (\<lambda>n. True)\<rparr>"

text \<open>The table built from frametable 3 alone.\<close>

definition sample_three :: caml_frame_descrs where
  "sample_three =
     \<lparr>num_descr = 3, mask = 7,
      descriptors = [NULL, NULL, Descr 10, Descr 11, Descr 12, NULL, NULL, NULL],
      frametables = [3]\<rparr>"

text \<open>The table built from the frametables 4 and 3.\<close>

definition sample_fifteen :: caml_frame_descrs where
  "sample_fifteen =
     \<lparr>num_descr = 15, mask = 31,
      descriptors =
        [NULL, NULL, NULL, NULL, NULL, NULL, NULL, NULL, NULL, NULL,
         Descr 10, Descr 11, Descr 12, NULL, NULL, NULL, NULL, NULL,
         NULL, NULL, Descr 20, Descr 21, Descr 22, Descr 23, Descr 24,
         Descr 25, Descr 26, Descr 27, Descr 28, Descr 29, Descr 30, Descr 31],
      frametables = [4, 3]\<rparr>"

text \<open>
  The same table after frametable 5 has been folded into it: its descriptor hashes to slot
  10 and lies in slot 13, behind the three descriptors of frametable 3.
\<close>

definition sample_sixteen :: caml_frame_descrs where
  "sample_sixteen =
     \<lparr>num_descr = 16, mask = 31,
      descriptors =
        [NULL, NULL, NULL, NULL, NULL, NULL, NULL, NULL, NULL, NULL,
         Descr 10, Descr 11, Descr 12, Descr 42, NULL, NULL, NULL, NULL,
         NULL, NULL, Descr 20, Descr 21, Descr 22, Descr 23, Descr 24,
         Descr 25, Descr 26, Descr 27, Descr 28, Descr 29, Descr 30, Descr 31],
      frametables = [5, 4, 3]\<rparr>"


text \<open>
  The table built from frametable 1 alone, the same after frametable 1 has been removed,
  after frametable 2 has then been registered, and after frametable 2 has been removed
  again.
\<close>

definition sample_four :: caml_frame_descrs where
  "sample_four =
     \<lparr>num_descr = 4, mask = 7,
      descriptors = [Descr 0, Descr 1, Descr 2, Descr 3, NULL, NULL, NULL, NULL],
      frametables = [1]\<rparr>"

definition sample_tombs :: caml_frame_descrs where
  "sample_tombs =
     \<lparr>num_descr = 0, mask = 7,
      descriptors = [Dummy_descr, Dummy_descr, Dummy_descr, Dummy_descr, NULL, NULL, NULL, NULL],
      frametables = []\<rparr>"

definition sample_full :: caml_frame_descrs where
  "sample_full =
     \<lparr>num_descr = 4, mask = 7,
      descriptors =
        [Dummy_descr, Dummy_descr, Dummy_descr, Dummy_descr, Descr 4, Descr 5, Descr 6, Descr 7],
      frametables = [2]\<rparr>"

definition sample_all_tombs :: caml_frame_descrs where
  "sample_all_tombs =
     \<lparr>num_descr = 0, mask = 7,
      descriptors =
        [Dummy_descr, Dummy_descr, Dummy_descr, Dummy_descr,
         Dummy_descr, Dummy_descr, Dummy_descr, Dummy_descr],
      frametables = []\<rparr>"

text \<open>The table built from the frametables 1 and 2, and the same after both are removed.\<close>

definition sample_pair :: caml_frame_descrs where
  "sample_pair =
     \<lparr>num_descr = 8, mask = 15,
      descriptors =
        [Descr 0, Descr 1, Descr 2, Descr 3, Descr 4, Descr 5, Descr 6, Descr 7,
         NULL, NULL, NULL, NULL, NULL, NULL, NULL, NULL],
      frametables = [2, 1]\<rparr>"

definition sample_pair_removed :: caml_frame_descrs where
  "sample_pair_removed =
     \<lparr>num_descr = 0, mask = 15,
      descriptors =
        [Dummy_descr, Dummy_descr, Dummy_descr, Dummy_descr,
         Dummy_descr, Dummy_descr, Dummy_descr, Dummy_descr,
         NULL, NULL, NULL, NULL, NULL, NULL, NULL, NULL],
      frametables = []\<rparr>"

text \<open>
  The table that registering frametable 6 in the table of frametable 3 builds. There are 16
  slots. The two descriptors of frametable 6 hash to slot 10 and are inserted first, so
  they lie in the slots 10 and 11, and the descriptors 10, 11 and 12 of frametable 3, which
  hash to the slots 10, 11 and 12, lie two slots further on, in the slots 12, 13 and 14.
\<close>

definition sample_collide :: caml_frame_descrs where
  "sample_collide =
     \<lparr>num_descr = 5, mask = 15,
      descriptors =
        [NULL, NULL, NULL, NULL, NULL, NULL, NULL, NULL, NULL, NULL,
         Descr 42, Descr 74, Descr 10, Descr 11, Descr 12, NULL],
      frametables = [6, 3]\<rparr>"

section \<open>Arithmetic of the probe sequence\<close>

lemma and_mask_int: "nat (int x AND (2 ^ k - 1)) = x mod 2 ^ k"
proof -
  have "int x AND (2 ^ k - 1) = take_bit k (int x)"
    by (simp add: take_bit_eq_mask mask_eq_exp_minus_1)
  also have "\<dots> = int (take_bit k x)"
    by (simp add: take_bit_of_nat)
  finally show ?thesis
    by (simp add: take_bit_eq_mod)
qed

lemma grow_tblsize_returns:
  "0 < t \<Longrightarrow> \<exists>j. grow_tblsize t n = Some (t * 2 ^ j) \<and> 2 * n \<le> t * 2 ^ j
      \<and> (j = 0 \<or> t * 2 ^ (j - 1) < 2 * n)"
proof (induction "nat (2 * n - t)" arbitrary: t rule: less_induct)
  case less
  show ?case
  proof (cases "t < 2 * n")
    case True
    have "nat (2 * n - t * 2) < nat (2 * n - t)"
      using True less.prems by simp
    from less.hyps[OF this] less.prems obtain j where
      j: "grow_tblsize (t * 2) n = Some (t * 2 * 2 ^ j)" "2 * n \<le> t * 2 * 2 ^ j"
         "j = 0 \<or> t * 2 * 2 ^ (j - 1) < 2 * n"
      by auto
    have "grow_tblsize t n = Some (t * 2 ^ Suc j)"
      using True j(1) by (subst grow_tblsize.simps) simp
    moreover have "2 * n \<le> t * 2 ^ Suc j"
      using j(2) by simp
    moreover have "t * 2 ^ (Suc j - 1) < 2 * n"
    proof (cases j)
      case 0
      then show ?thesis using True by simp
    next
      case (Suc i)
      then show ?thesis using j(3) by simp
    qed
    ultimately show ?thesis by blast
  next
    case False
    then have "grow_tblsize t n = Some (t * 2 ^ 0)"
      by (subst grow_tblsize.simps) simp
    with False show ?thesis
      by (intro exI[of _ 0]) simp
  qed
qed

section \<open>What the loops leave alone\<close>

lemma same_header_refl: "same_header t t"
  by (simp add: same_header_def)

lemma same_header_trans: "same_header t t' \<Longrightarrow> same_header t' t'' \<Longrightarrow> same_header t t''"
  by (simp add: same_header_def)

lemma same_header_store: "same_header t (store_slot t h p)"
  by (simp add: same_header_def store_slot_def)

lemma probe_free_result:
  assumes "probe_free t h = Some y"
  shows "\<forall>q. y = Inr q \<longrightarrow> q < length (descriptors t)
        \<and> (descriptors t ! q = NULL \<or> descriptors t ! q = Dummy_descr)"
  by (rule probe_free.raw_induct[where P = "\<lambda>t h y. \<forall>q. y = Inr q \<longrightarrow>
        q < length (descriptors t)
        \<and> (descriptors t ! q = NULL \<or> descriptors t ! q = Dummy_descr)", OF _ assms])
     (auto simp: load_slot_def split: if_splits)

lemma probe_free_Inr:
  "probe_free t h = Some (Inr q) \<Longrightarrow>
     q < length (descriptors t) \<and> (descriptors t ! q = NULL \<or> descriptors t ! q = Dummy_descr)"
  using probe_free_result by blast

lemma insert_descr_header: "insert_descr E t d = Some (Inr t') \<Longrightarrow> same_header t t'"
  by (auto simp: insert_descr_def same_header_store split: option.splits sum.splits)

lemma fill_frametable_header: "fill_frametable E t ds = Some (Inr t') \<Longrightarrow> same_header t t'"
proof (induction ds arbitrary: t)
  case Nil
  then show ?case by (simp add: same_header_refl)
next
  case (Cons d ds)
  then show ?case
    by (auto split: option.splits sum.splits
        dest!: insert_descr_header intro: same_header_trans)
qed

lemma fill_hashtable_header: "fill_hashtable E t fts = Some (Inr t') \<Longrightarrow> same_header t t'"
proof (induction fts arbitrary: t)
  case Nil
  then show ?case by (simp add: same_header_refl)
next
  case (Cons ft fts)
  then show ?case
    by (auto split: option.splits sum.splits
        dest!: fill_frametable_header intro: same_header_trans)
qed

lemma invalid_loop_result:
  assumes "invalid_loop t e h = Some y"
  shows "\<forall>t'. y = Inr t' \<longrightarrow> same_header t t'"
  by (rule invalid_loop.raw_induct[where P = "\<lambda>t e h y. \<forall>t'. y = Inr t' \<longrightarrow> same_header t t'",
        OF _ assms])
     (auto simp: same_header_store split: sum.splits if_splits)

lemma invalid_loop_header: "invalid_loop t e h = Some (Inr t') \<Longrightarrow> same_header t t'"
  using invalid_loop_result by blast

lemma invalid_frametable_header: "invalid_frametable E t ds = Some (Inr t') \<Longrightarrow> same_header t t'"
proof (induction ds arbitrary: t)
  case Nil
  then show ?case by (simp add: same_header_refl)
next
  case (Cons d ds)
  then show ?case
    by (auto simp: invalid_entry_def split: option.splits sum.splits
        dest!: invalid_loop_header intro: same_header_trans)
qed

lemma invalid_frametables_header: "invalid_frametables E t fts = Some (Inr t') \<Longrightarrow> same_header t t'"
proof (induction fts arbitrary: t)
  case Nil
  then show ?case by (simp add: same_header_refl)
next
  case (Cons ft fts)
  then show ?case
    by (auto split: option.splits sum.splits
        dest!: invalid_frametable_header intro: same_header_trans)
qed

lemma count_descriptors_nonneg: "0 \<le> count_descriptors E fts"
  by (induction fts) auto

text \<open>What a successful build leaves in the header of the table.\<close>

lemma realloc_frame_descriptors_header:
  assumes "realloc_frame_descriptors E table fts = Some (Inr table')"
  shows "\<exists>j. capacity table' = 4 * 2 ^ j \<and> 2 * count_descriptors E fts \<le> 4 * 2 ^ j
           \<and> (j = 0 \<or> 4 * 2 ^ (j - 1) < 2 * count_descriptors E fts)
           \<and> length (descriptors table') = nat (4 * 2 ^ j)
           \<and> num_descr table' = count_descriptors E fts \<and> frametables table' = fts"
proof -
  obtain j where j: "grow_tblsize 4 (count_descriptors E fts) = Some (4 * 2 ^ j)"
      "2 * count_descriptors E fts \<le> 4 * 2 ^ j"
      "j = 0 \<or> 4 * 2 ^ (j - 1) < 2 * count_descriptors E fts"
    using grow_tblsize_returns[of 4 "count_descriptors E fts"] by auto
  from assms j(1) obtain t1 where
    t1: "fill_hashtable E \<lparr>num_descr = count_descriptors E fts, mask = 4 * 2 ^ j - 1,
            descriptors = replicate (nat (4 * 2 ^ j)) NULL, frametables = frametables table\<rparr> fts
          = Some (Inr t1)" and t': "table' = t1\<lparr>frametables := fts\<rparr>"
    by (auto simp: realloc_frame_descriptors_def Let_def split: if_splits option.splits sum.splits)
  from fill_hashtable_header[OF t1] t' have
    "capacity table' = 4 * 2 ^ j" "length (descriptors table') = nat (4 * 2 ^ j)"
    "num_descr table' = count_descriptors E fts" "frametables table' = fts"
    by (simp_all add: same_header_def capacity_def)
  with j(2,3) show ?thesis by blast
qed


section \<open>Evaluation on given tables\<close>

lemma replicate_numeral: "replicate (numeral k) x = x # replicate (pred_numeral k) x"
  by (simp add: numeral_eq_Suc)

lemma list_update_Cons_numeral: "(x # xs)[numeral k := y] = x # xs[pred_numeral k := y]"
  by (simp add: numeral_eq_Suc)

lemma first_match_numeral:
  "first_match ft fts i (numeral k) =
     (if fts ! i = ft then Some i else first_match ft fts (Suc i) (pred_numeral k))"
  by (simp add: numeral_eq_Suc)

lemmas registry_eval =
  first_match_numeral
  caml_init_frame_descriptors_def realloc_frame_descriptors_def current_frame_descrs_init_def
  caml_register_frametables_def caml_register_frametable_def add_frame_descriptors_def
  realloc_frame_descriptors_from_stw_single_def fold_frametables_def link_tail_def
  caml_unregister_frametables_def remove_frame_descriptors_def invalid_entry_def
  caml_find_frame_descr_def insert_descr_def capacity_def
  grow_tblsize.simps probe_free.simps invalid_loop.simps find_loop.simps
  Hash_retaddr_def next_slot_def load_slot_def store_slot_def drop_bit_eq_div
  replicate_numeral list_update_Cons_numeral Let_def

lemma realloc_sample_three:
  "realloc_frame_descriptors sample_env current_frame_descrs_init [3] = Some (Inr sample_three)"
  by (simp add: registry_eval sample_env_def sample_three_def)

lemma register_sample_fifteen:
  "caml_register_frametables sample_env sample_three [4] 1 = Some (Inr sample_fifteen)"
  by (simp add: registry_eval sample_env_def sample_three_def sample_fifteen_def)

section \<open>The capacity of a built table\<close>

text \<open>
  C6. A table that \<open>realloc_frame_descriptors\<close> returns has as capacity the least power of
  two that is at least 4 and at least twice the number of descriptors of the frametables
  it was built from, and its array has that many slots. For 3 descriptors the capacity is
  8, for 15 it is 32.
\<close>

theorem realloc_frame_descriptors_capacity:
  assumes "realloc_frame_descriptors E table fts = Some (Inr table')"
  shows "(\<exists>k. 2 \<le> k \<and> capacity table' = 2 ^ k \<and> 2 * count_descriptors E fts \<le> 2 ^ k
            \<and> (\<forall>j. 2 \<le> j \<and> 2 * count_descriptors E fts \<le> 2 ^ j \<longrightarrow> k \<le> j)
            \<and> length (descriptors table') = 2 ^ k)
         \<and> (count_descriptors E fts = 3 \<longrightarrow> capacity table' = 8)
         \<and> (count_descriptors E fts = 15 \<longrightarrow> capacity table' = 32)"
proof -
  let ?n = "count_descriptors E fts"
  from realloc_frame_descriptors_header[OF assms] obtain i where
    i: "capacity table' = 4 * 2 ^ i" "2 * ?n \<le> 4 * 2 ^ i"
       "i = 0 \<or> 4 * 2 ^ (i - 1) < 2 * ?n" "length (descriptors table') = nat (4 * 2 ^ i)"
    by blast
  have cap: "capacity table' = 2 ^ (i + 2)"
    using i(1) by simp
  have len: "length (descriptors table') = 2 ^ (i + 2)"
    using i(4) by (simp add: nat_mult_distrib nat_power_eq)
  have least: "i + 2 \<le> j" if j: "2 \<le> j" "2 * ?n \<le> 2 ^ j" for j
  proof (cases i)
    case 0
    then show ?thesis using j(1) by simp
  next
    case (Suc i')
    with i(3) have "(2::int) ^ (i' + 2) < 2 * ?n"
      by simp
    with j(2) have "(2::int) ^ (i' + 2) < 2 ^ j"
      by linarith
    then have "i' + 2 < j"
      using power_less_imp_less_exp[of "2::int" "i' + 2" j] by simp
    with Suc show ?thesis by simp
  qed
  have three: "capacity table' = 8" if n: "?n = 3"
  proof -
    have "i + 2 \<le> 3"
      using least[of 3] n by simp
    moreover have "i \<noteq> 0"
    proof
      assume "i = 0"
      with i(2) n show False by simp
    qed
    ultimately have "i = 1" by simp
    then show ?thesis using i(1) by simp
  qed
  have fifteen: "capacity table' = 32" if n: "?n = 15"
  proof -
    have "i + 2 \<le> 5"
      using least[of 5] n by simp
    moreover have "i \<noteq> 0"
    proof
      assume "i = 0"
      with i(2) n show False by simp
    qed
    moreover have "i \<noteq> 1"
    proof
      assume "i = 1"
      with i(2) n show False by simp
    qed
    moreover have "i \<noteq> 2"
    proof
      assume "i = 2"
      with i(2) n show False by simp
    qed
    ultimately have "i = 3" by linarith
    then show ?thesis using i(1) by simp
  qed
  have "2 * ?n \<le> 2 ^ (i + 2)"
    using i(2) by simp
  with cap len least three fifteen show ?thesis
    by (intro conjI exI[of _ "i + 2"]) auto
qed

theorem realloc_frame_descriptors_capacity_witness:
  "realloc_frame_descriptors sample_env current_frame_descrs_init [3] = Some (Inr sample_three)
   \<and> count_descriptors sample_env [3] = 3 \<and> capacity sample_three = 8"
proof -
  have n: "count_descriptors sample_env [3] = 3"
    by (simp add: sample_env_def)
  have "capacity sample_three = 8"
    using realloc_frame_descriptors_capacity[OF realloc_sample_three] n by blast
  with n realloc_sample_three show ?thesis
    by blast
qed


section \<open>The invariants of the sizes\<close>

lemma realloc_size_invariants:
  assumes "realloc_frame_descriptors E table fts = Some (Inr table')"
  shows "size_invariants table'"
proof -
  from realloc_frame_descriptors_header[OF assms] obtain j where
    j: "capacity table' = 4 * 2 ^ j" "2 * count_descriptors E fts \<le> 4 * 2 ^ j"
       "num_descr table' = count_descriptors E fts"
    by blast
  have "capacity table' = 2 ^ (j + 2)"
    using j(1) by simp
  then have "\<exists>k. capacity table' = 2 ^ k" ..
  moreover have "num_descr table' * 2 \<le> capacity table'"
    using j by simp
  ultimately show ?thesis
    by (simp add: size_invariants_def)
qed

lemma fold_size_invariants:
  assumes "size_invariants table" "\<not> capacity table < (num_descr table + incr) * 2"
    and "fold_frametables E table new_fts incr = Some (Inr table')"
  shows "size_invariants table'"
proof -
  from assms(3) obtain t1 where
    t1: "fill_hashtable E (table\<lparr>num_descr := num_descr table + incr\<rparr>) new_fts = Some (Inr t1)"
    and "mask table' = mask t1" "num_descr table' = num_descr t1"
    by (auto simp: fold_frametables_def split: option.splits sum.splits)
  with fill_hashtable_header[OF t1] have
    "capacity table' = capacity table" "num_descr table' = num_descr table + incr"
    by (simp_all add: same_header_def capacity_def)
  with assms(1,2) show ?thesis
    by (simp add: size_invariants_def)
qed

lemma stw_size_invariants:
  assumes "size_invariants table"
    and "realloc_frame_descriptors_from_stw_single E table request = Some (Inr table')"
  shows "size_invariants table'"
  using assms
  by (auto simp: realloc_frame_descriptors_from_stw_single_def Let_def
      split: if_splits sum.splits
      intro: realloc_size_invariants fold_size_invariants)

lemma register_size_invariants:
  assumes "size_invariants table"
    and "caml_register_frametables E table fts ntables = Some (Inr table')"
  shows "size_invariants table'"
  using assms
  by (auto simp: caml_register_frametables_def add_frame_descriptors_def Let_def
      split: if_splits
      intro: stw_size_invariants fold_size_invariants)

lemma unregister_size_invariants:
  assumes "size_invariants table"
    and "caml_unregister_frametables E table fts ntables = Some (Inr (table', fts'))"
  shows "size_invariants table'"
proof -
  from assms(2) obtain t1 where
    t1: "invalid_frametables E table (take ntables fts) = Some (Inr t1)"
    and "mask table' = mask t1"
      "num_descr table' = num_descr t1 - count_descriptors E (take ntables fts)"
    by (auto simp: caml_unregister_frametables_def remove_frame_descriptors_def Let_def
        split: if_splits option.splits sum.splits)
  with invalid_frametables_header[OF t1] have
    "capacity table' = capacity table"
    "num_descr table' = num_descr table - count_descriptors E (take ntables fts)"
    by (simp_all add: same_header_def capacity_def)
  with assms(1) count_descriptors_nonneg[of E "take ntables fts"] show ?thesis
    by (auto simp: size_invariants_def)
qed

text \<open>
  C4. In every state of the registry the capacity is 0 or a power of two, and twice the
  number of descriptors is at most the capacity when the capacity is positive: the static
  initial value has them, a build gives them, and registration (in place or through the
  rendezvous body) and removal keep them.
\<close>

theorem reachable_size_invariants:
  assumes "reachable E table"
  shows "(capacity table = 0 \<or> (\<exists>k. capacity table = 2 ^ k))
         \<and> (0 < capacity table \<longrightarrow> num_descr table * 2 \<le> capacity table)"
proof -
  from assms have "size_invariants table"
  proof induction
    case reachable_static
    show ?case
      by (simp add: size_invariants_def capacity_def current_frame_descrs_init_def)
  next
    case (reachable_init caml_frametable table)
    then show ?case
      by (auto simp: caml_init_frame_descriptors_def intro: realloc_size_invariants)
  next
    case (reachable_register table fts ntables table')
    then show ?case
      by (blast intro: register_size_invariants)
  next
    case (reachable_stw table request table')
    then show ?case
      by (blast intro: stw_size_invariants)
  next
    case (reachable_unregister table fts ntables table' fts')
    then show ?case
      by (blast intro: unregister_size_invariants)
  qed
  then show ?thesis
    by (simp add: size_invariants_def)
qed

theorem reachable_size_invariants_witness:
  "reachable sample_env sample_fifteen \<and> capacity sample_fifteen = 32
   \<and> (\<exists>k. capacity sample_fifteen = 2 ^ k)
   \<and> num_descr sample_fifteen * 2 \<le> capacity sample_fifteen"
proof -
  have "reachable sample_env sample_three"
    by (rule reachable_init[of _ "[3]"])
      (simp add: caml_init_frame_descriptors_def realloc_sample_three)
  then have r: "reachable sample_env sample_fifteen"
    by (rule reachable_register[OF _ register_sample_fifteen])
  have c: "capacity sample_fifteen = 32"
    by (simp add: capacity_def sample_fifteen_def)
  from reachable_size_invariants[OF r] c
  have "(\<exists>k. capacity sample_fifteen = 2 ^ k)
      \<and> num_descr sample_fifteen * 2 \<le> capacity sample_fifteen"
    by auto
  with r c show ?thesis
    by blast
qed

section \<open>The body run at the rendezvous\<close>

lemma stw_rebuild_sample:
  "realloc_frame_descriptors sample_env sample_three [4, 3] = Some (Inr sample_fifteen)"
  by (simp add: registry_eval sample_env_def sample_three_def sample_fifteen_def)

lemma stw_fold_sample:
  "fill_hashtable sample_env (sample_fifteen\<lparr>num_descr := 16\<rparr>) [5]
     = Some (Inr (sample_sixteen\<lparr>frametables := [4, 3]\<rparr>))"
  by (simp add: registry_eval sample_env_def sample_fifteen_def sample_sixteen_def)

text \<open>
  C7. The body that the elected domain runs tests the capacity again, on the table as it
  is then. If the capacity is below twice the new count, the list of the table is linked
  behind the last node of the new list and \<open>realloc_frame_descriptors\<close> builds the table
  from that whole list, which it installs. Otherwise the body does what the fast path of
  \<open>add_frame_descriptors\<close> does: the count grows by the increase, the new descriptors are
  inserted into the array in place, and the two lists are linked in the same way.
\<close>

theorem stw_single_body:
  assumes "new_frametables request \<noteq> []"
  shows "(capacity table < (num_descr table + increase request) * 2 \<longrightarrow>
            realloc_frame_descriptors_from_stw_single E table request
            = realloc_frame_descriptors E table (new_frametables request @ frametables table))
         \<and> (\<not> capacity table < (num_descr table + increase request) * 2 \<longrightarrow>
            realloc_frame_descriptors_from_stw_single E table request
            = (case fill_hashtable E (table\<lparr>num_descr := num_descr table + increase request\<rparr>)
                      (new_frametables request) of
                 None \<Rightarrow> None
               | Some (Inl err) \<Rightarrow> Some (Inl err)
               | Some (Inr table') \<Rightarrow>
                   Some (Inr (table'\<lparr>frametables := new_frametables request @ frametables table\<rparr>))))"
proof (intro conjI impI)
  assume "capacity table < (num_descr table + increase request) * 2"
  with assms show "realloc_frame_descriptors_from_stw_single E table request
      = realloc_frame_descriptors E table (new_frametables request @ frametables table)"
    by (simp add: realloc_frame_descriptors_from_stw_single_def link_tail_def)
next
  let ?t0 = "table\<lparr>num_descr := num_descr table + increase request\<rparr>"
  assume "\<not> capacity table < (num_descr table + increase request) * 2"
  then have "realloc_frame_descriptors_from_stw_single E table request
      = fold_frametables E table (new_frametables request) (increase request)"
    by (simp add: realloc_frame_descriptors_from_stw_single_def)
  also have "\<dots> = (case fill_hashtable E ?t0 (new_frametables request) of
                 None \<Rightarrow> None
               | Some (Inl err) \<Rightarrow> Some (Inl err)
               | Some (Inr table') \<Rightarrow>
                   Some (Inr (table'\<lparr>frametables := new_frametables request @ frametables table\<rparr>)))"
  proof (cases "fill_hashtable E ?t0 (new_frametables request)")
    case None
    then show ?thesis
      by (simp add: fold_frametables_def)
  next
    case (Some r)
    show ?thesis
    proof (cases r)
      case (Inl err)
      with Some show ?thesis
        by (simp add: fold_frametables_def)
    next
      case (Inr t1)
      with Some fill_hashtable_header[of E ?t0 "new_frametables request" t1]
      have "frametables t1 = frametables table"
        by (simp add: same_header_def)
      with Some Inr assms show ?thesis
        by (simp add: fold_frametables_def link_tail_def)
    qed
  qed
  finally show "realloc_frame_descriptors_from_stw_single E table request = \<dots>" .
qed

theorem stw_single_body_witness:
  "realloc_frame_descriptors_from_stw_single sample_env sample_three
       \<lparr>new_frametables = [4], increase = 12\<rparr> = Some (Inr sample_fifteen)
   \<and> realloc_frame_descriptors_from_stw_single sample_env sample_fifteen
       \<lparr>new_frametables = [5], increase = 1\<rparr> = Some (Inr sample_sixteen)"
proof -
  have "realloc_frame_descriptors_from_stw_single sample_env sample_three
       \<lparr>new_frametables = [4], increase = 12\<rparr> = Some (Inr sample_fifteen)"
    using stw_single_body[of "\<lparr>new_frametables = [4], increase = 12\<rparr>" sample_three sample_env]
      stw_rebuild_sample
    by (simp add: capacity_def sample_three_def)
  moreover have "realloc_frame_descriptors_from_stw_single sample_env sample_fifteen
       \<lparr>new_frametables = [5], increase = 1\<rparr> = Some (Inr sample_sixteen)"
    using stw_single_body[of "\<lparr>new_frametables = [5], increase = 1\<rparr>" sample_fifteen sample_env]
      stw_fold_sample
    by (simp add: capacity_def sample_fifteen_def sample_sixteen_def)
  ultimately show ?thesis ..
qed

section \<open>What a lookup returns\<close>

lemma find_loop_result:
  assumes "find_loop E fds pc h = Some y"
  shows "\<forall>d. y = Inr d \<longrightarrow> d = NULL \<or> retaddr E d = pc"
  by (rule find_loop.raw_induct[where P = "\<lambda>E fds pc h y.
        \<forall>d. y = Inr d \<longrightarrow> d = NULL \<or> retaddr E d = pc", OF _ assms])
     (auto split: sum.splits if_splits)

lemma find_sample_three:
  "caml_find_frame_descr sample_env sample_three 4184 = Some (Inr (Descr 11))"
  by (simp add: registry_eval sample_env_def sample_three_def)

text \<open>
  C10. A pointer that \<open>caml_find_frame_descr\<close> returns for \<open>pc\<close> is null or points to a
  descriptor whose return address is \<open>pc\<close>. When \<open>pc\<close> is not the return address that the
  placeholder holds, the pointer is not the placeholder.
\<close>

theorem find_frame_descr_postcondition:
  assumes "caml_find_frame_descr E fds pc = Some (Inr d)"
  shows "(d = NULL \<or> retaddr E d = pc) \<and> (pc \<noteq> dummy_retaddr E \<longrightarrow> d \<noteq> Dummy_descr)"
proof -
  from assms have "d = NULL \<or> retaddr E d = pc"
    using find_loop_result by (simp add: caml_find_frame_descr_def)
  then show ?thesis
    by auto
qed

theorem find_frame_descr_postcondition_witness:
  "caml_find_frame_descr sample_env sample_three 4184 = Some (Inr (Descr 11))
   \<and> retaddr sample_env (Descr 11) = 4184 \<and> 4184 \<noteq> dummy_retaddr sample_env"
proof -
  have "retaddr sample_env (Descr 11) = 4184"
    using find_frame_descr_postcondition[OF find_sample_three] by blast
  moreover have "4184 \<noteq> dummy_retaddr sample_env"
    by (simp add: sample_env_def)
  ultimately show ?thesis
    using find_sample_three by blast
qed


section \<open>Removal and the caller's array\<close>

lemma init_sample_pair:
  "caml_init_frame_descriptors sample_env [1, 2] = Some (Inr sample_pair)"
  by (simp add: registry_eval sample_env_def sample_pair_def)

lemma unregister_sample_pair:
  "caml_unregister_frametables sample_env sample_pair [2, 1] 2
     = Some (Inr (sample_pair_removed, [1, 1]))"
  by (simp add: registry_eval sample_env_def sample_pair_def sample_pair_removed_def)

text \<open>
  C9. \<open>caml_unregister_frametables\<close> writes the array of handles that its caller passes:
  when it unlinks a node and more remain to be found, it copies the last entry in use over
  the entry it has matched. The table built from the frametables 1 and 2 has the list 2, 1;
  removing both with the array 2, 1 hands the array back as 1, 1.
\<close>

theorem unregister_writes_callers_array:
  "caml_init_frame_descriptors sample_env [1, 2] = Some (Inr sample_pair)
   \<and> frametables sample_pair = [2, 1]
   \<and> (\<exists>fds' fts'. caml_unregister_frametables sample_env sample_pair [2, 1] 2
          = Some (Inr (fds', fts')) \<and> fts' = [1, 1] \<and> fts' \<noteq> [2, 1])"
proof (intro conjI)
  show "caml_init_frame_descriptors sample_env [1, 2] = Some (Inr sample_pair)"
    by (rule init_sample_pair)
  show "frametables sample_pair = [2, 1]"
    by (simp add: sample_pair_def)
  show "\<exists>fds' fts'. caml_unregister_frametables sample_env sample_pair [2, 1] 2
          = Some (Inr (fds', fts')) \<and> fts' = [1, 1] \<and> fts' \<noteq> [2, 1]"
    using unregister_sample_pair by simp
qed

section \<open>Removal leaves placeholders\<close>

lemma invalid_loop_store:
  assumes "invalid_loop t e h = Some y"
  shows "\<forall>t'. y = Inr t' \<longrightarrow>
           (\<exists>q < length (descriptors t). descriptors t ! q = Descr e
              \<and> t' = store_slot t q Dummy_descr)"
  by (rule invalid_loop.raw_induct[where P = "\<lambda>t e h y. \<forall>t'. y = Inr t' \<longrightarrow>
           (\<exists>q < length (descriptors t). descriptors t ! q = Descr e
              \<and> t' = store_slot t q Dummy_descr)", OF _ assms])
     (auto simp: load_slot_def split: sum.splits if_splits)

lemma invalid_entry_store:
  assumes "invalid_entry E t e = Some (Inr t')"
  obtains q where "q < length (descriptors t)" "descriptors t ! q = Descr e"
    "t' = store_slot t q Dummy_descr"
  using assms invalid_loop_store unfolding invalid_entry_def by blast

lemma tombstoned_refl: "tombstoned R t t"
  by (simp add: tombstoned_def)

lemma tombstoned_mono: "tombstoned R t t' \<Longrightarrow> R \<subseteq> R' \<Longrightarrow> tombstoned R' t t'"
  unfolding tombstoned_def by blast

lemma tombstoned_trans:
  assumes "tombstoned R t t'" "tombstoned R t' t''"
  shows "tombstoned R t t''"
proof -
  have "descriptors t'' ! q = descriptors t ! q
        \<or> (descriptors t'' ! q = Dummy_descr \<and> (\<exists>e\<in>R. descriptors t ! q = Descr e))"
    if "q < length (descriptors t)" for q
  proof -
    from that assms have
      a: "descriptors t' ! q = descriptors t ! q
          \<or> (descriptors t' ! q = Dummy_descr \<and> (\<exists>e\<in>R. descriptors t ! q = Descr e))"
      and b: "descriptors t'' ! q = descriptors t' ! q
          \<or> (descriptors t'' ! q = Dummy_descr \<and> (\<exists>e\<in>R. descriptors t' ! q = Descr e))"
      by (simp_all add: tombstoned_def)
    then show ?thesis
      by metis
  qed
  with assms show ?thesis
    by (simp add: tombstoned_def)
qed

lemma tombstoned_store:
  assumes "q < length (descriptors t)" "descriptors t ! q = Descr e" "e \<in> R"
  shows "tombstoned R t (store_slot t q Dummy_descr)"
  using assms by (auto simp: tombstoned_def store_slot_def nth_list_update)

lemma invalid_frametable_tombstoned:
  "invalid_frametable E t ds = Some (Inr t') \<Longrightarrow> tombstoned (set ds) t t'"
proof (induction ds arbitrary: t)
  case Nil
  then show ?case by (simp add: tombstoned_refl)
next
  case (Cons e ds)
  from Cons.prems obtain t1 where
    t1: "invalid_entry E t e = Some (Inr t1)" and rest: "invalid_frametable E t1 ds = Some (Inr t')"
    by (auto split: option.splits sum.splits)
  from t1 have "tombstoned (set (e # ds)) t t1"
    by (auto elim!: invalid_entry_store intro: tombstoned_store)
  moreover from Cons.IH[OF rest] have "tombstoned (set (e # ds)) t1 t'"
    by (rule tombstoned_mono) auto
  ultimately show ?case
    by (rule tombstoned_trans)
qed

lemma invalid_frametables_tombstoned:
  "invalid_frametables E t fts = Some (Inr t') \<Longrightarrow> tombstoned (set (active E fts)) t t'"
proof (induction fts arbitrary: t)
  case Nil
  then show ?case by (simp add: tombstoned_refl)
next
  case (Cons ft fts)
  from Cons.prems obtain t1 where
    t1: "invalid_frametable E t (frametable_at E ft) = Some (Inr t1)"
    and rest: "invalid_frametables E t1 fts = Some (Inr t')"
    by (auto split: option.splits sum.splits)
  from invalid_frametable_tombstoned[OF t1] have "tombstoned (set (active E (ft # fts))) t t1"
    by (rule tombstoned_mono) (simp add: active_def)
  moreover from Cons.IH[OF rest] have "tombstoned (set (active E (ft # fts))) t1 t'"
    by (rule tombstoned_mono) (simp add: active_def)
  ultimately show ?case
    by (rule tombstoned_trans)
qed










section \<open>Probing a table of the built shape\<close>

lemma table_shape_pos: "table_shape t \<Longrightarrow> 0 < length (descriptors t)"
  by (auto simp: table_shape_def)

lemma next_slot_shape:
  assumes "table_shape t"
  shows "next_slot h (mask t) = (h + 1) mod length (descriptors t)"
proof -
  from assms obtain k where "mask t = 2 ^ k - 1" "length (descriptors t) = 2 ^ k"
    by (auto simp: table_shape_def)
  then show ?thesis
    using and_mask_int[of "h + 1" k] by (simp add: next_slot_def)
qed

lemma Hash_retaddr_shape:
  assumes "table_shape t"
  shows "Hash_retaddr E a (mask t) = hash_bits E a mod length (descriptors t)"
proof -
  from assms obtain k where "mask t = 2 ^ k - 1" "length (descriptors t) = 2 ^ k"
    by (auto simp: table_shape_def)
  then show ?thesis
    using and_mask_int[of "hash_bits E a" k] by (simp add: Hash_retaddr_def)
qed

lemma Hash_retaddr_less: "table_shape t \<Longrightarrow> Hash_retaddr E a (mask t) < length (descriptors t)"
  using table_shape_pos[of t] by (simp add: Hash_retaddr_shape)

lemma home_less: "table_shape t \<Longrightarrow> home E t d < length (descriptors t)"
  by (simp add: home_def Hash_retaddr_less)

lemma probe_slot_less: "table_shape t \<Longrightarrow> probe_slot t h i < length (descriptors t)"
  using table_shape_pos[of t] by (simp add: probe_slot_def)

lemma probe_slot_0: "h < length (descriptors t) \<Longrightarrow> probe_slot t h 0 = h"
  by (simp add: probe_slot_def)

lemma probe_slot_next:
  "table_shape t \<Longrightarrow> probe_slot t (next_slot h (mask t)) i = probe_slot t h (Suc i)"
  by (simp add: probe_slot_def next_slot_shape mod_add_left_eq)

lemma next_slot_less: "table_shape t \<Longrightarrow> next_slot h (mask t) < length (descriptors t)"
  using table_shape_pos[of t] by (simp add: next_slot_shape)

lemma probe_slot_reaches:
  assumes "h < length (descriptors t)" "q < length (descriptors t)"
  shows "\<exists>n. probe_slot t h n = q"
proof -
  let ?c = "length (descriptors t)"
  have "(h + (q + ?c - h)) mod ?c = q"
    using assms by simp
  then show ?thesis
    unfolding probe_slot_def by blast
qed

text \<open>The three loops, when the slot they look for is \<open>n\<close> probes away.\<close>

lemma probe_free_steps:
  assumes "table_shape t"
  shows "h < length (descriptors t) \<Longrightarrow>
     (\<forall>i < n. descriptors t ! probe_slot t h i \<noteq> NULL
               \<and> descriptors t ! probe_slot t h i \<noteq> Dummy_descr) \<Longrightarrow>
     descriptors t ! probe_slot t h n = NULL \<or> descriptors t ! probe_slot t h n = Dummy_descr \<Longrightarrow>
     probe_free t h = Some (Inr (probe_slot t h n))"
proof (induction n arbitrary: h)
  case 0
  then show ?case
    by (subst probe_free.simps) (auto simp: load_slot_def probe_slot_0)
next
  case (Suc n)
  from Suc.prems(2)[rule_format, of 0] Suc.prems(1)
  have here: "descriptors t ! h \<noteq> NULL" "descriptors t ! h \<noteq> Dummy_descr"
    by (simp_all add: probe_slot_0)
  have "probe_free t (next_slot h (mask t)) = Some (Inr (probe_slot t (next_slot h (mask t)) n))"
  proof (rule Suc.IH)
    show "next_slot h (mask t) < length (descriptors t)"
      using assms by (rule next_slot_less)
    show "\<forall>i<n. descriptors t ! probe_slot t (next_slot h (mask t)) i \<noteq> NULL
        \<and> descriptors t ! probe_slot t (next_slot h (mask t)) i \<noteq> Dummy_descr"
      using Suc.prems(2) by (simp add: probe_slot_next[OF assms])
    show "descriptors t ! probe_slot t (next_slot h (mask t)) n = NULL
        \<or> descriptors t ! probe_slot t (next_slot h (mask t)) n = Dummy_descr"
      using Suc.prems(3) by (simp add: probe_slot_next[OF assms])
  qed
  with here Suc.prems(1) show ?case
    by (subst probe_free.simps) (simp add: load_slot_def probe_slot_next[OF assms])
qed

lemma find_loop_steps:
  assumes "table_shape t"
  shows "h < length (descriptors t) \<Longrightarrow>
     (\<forall>i < n. descriptors t ! probe_slot t h i \<noteq> NULL
               \<and> retaddr E (descriptors t ! probe_slot t h i) \<noteq> pc) \<Longrightarrow>
     descriptors t ! probe_slot t h n = NULL
       \<or> retaddr E (descriptors t ! probe_slot t h n) = pc \<Longrightarrow>
     find_loop E t pc h = Some (Inr (descriptors t ! probe_slot t h n))"
proof (induction n arbitrary: h)
  case 0
  then show ?case
    by (subst find_loop.simps) (auto simp: load_slot_def probe_slot_0)
next
  case (Suc n)
  from Suc.prems(2)[rule_format, of 0] Suc.prems(1)
  have here: "descriptors t ! h \<noteq> NULL" "retaddr E (descriptors t ! h) \<noteq> pc"
    by (simp_all add: probe_slot_0)
  have "find_loop E t pc (next_slot h (mask t))
      = Some (Inr (descriptors t ! probe_slot t (next_slot h (mask t)) n))"
  proof (rule Suc.IH)
    show "next_slot h (mask t) < length (descriptors t)"
      using assms by (rule next_slot_less)
    show "\<forall>i<n. descriptors t ! probe_slot t (next_slot h (mask t)) i \<noteq> NULL
        \<and> retaddr E (descriptors t ! probe_slot t (next_slot h (mask t)) i) \<noteq> pc"
      using Suc.prems(2) by (simp add: probe_slot_next[OF assms])
    show "descriptors t ! probe_slot t (next_slot h (mask t)) n = NULL
        \<or> retaddr E (descriptors t ! probe_slot t (next_slot h (mask t)) n) = pc"
      using Suc.prems(3) by (simp add: probe_slot_next[OF assms])
  qed
  with here Suc.prems(1) show ?case
    by (subst find_loop.simps) (simp add: load_slot_def probe_slot_next[OF assms])
qed

lemma invalid_loop_steps:
  assumes "table_shape t"
  shows "h < length (descriptors t) \<Longrightarrow>
     (\<forall>i < n. descriptors t ! probe_slot t h i \<noteq> Descr e) \<Longrightarrow>
     descriptors t ! probe_slot t h n = Descr e \<Longrightarrow>
     invalid_loop t e h = Some (Inr (store_slot t (probe_slot t h n) Dummy_descr))"
proof (induction n arbitrary: h)
  case 0
  then show ?case
    by (subst invalid_loop.simps) (auto simp: load_slot_def probe_slot_0)
next
  case (Suc n)
  from Suc.prems(2)[rule_format, of 0] Suc.prems(1)
  have here: "descriptors t ! h \<noteq> Descr e"
    by (simp_all add: probe_slot_0)
  have "invalid_loop t e (next_slot h (mask t))
      = Some (Inr (store_slot t (probe_slot t (next_slot h (mask t)) n) Dummy_descr))"
  proof (rule Suc.IH)
    show "next_slot h (mask t) < length (descriptors t)"
      using assms by (rule next_slot_less)
    show "\<forall>i<n. descriptors t ! probe_slot t (next_slot h (mask t)) i \<noteq> Descr e"
      using Suc.prems(2) by (simp add: probe_slot_next[OF assms])
    show "descriptors t ! probe_slot t (next_slot h (mask t)) n = Descr e"
      using Suc.prems(3) by (simp add: probe_slot_next[OF assms])
  qed
  with here Suc.prems(1) show ?case
    by (subst invalid_loop.simps) (simp add: load_slot_def probe_slot_next[OF assms])
qed

text \<open>The first probe that meets a slot with a given property.\<close>

lemma first_probe:
  assumes "h < length (descriptors t)" "q < length (descriptors t)" "P (descriptors t ! q)"
  obtains n where "P (descriptors t ! probe_slot t h n)"
    "\<forall>i < n. \<not> P (descriptors t ! probe_slot t h i)"
proof -
  from probe_slot_reaches[OF assms(1,2)] assms(3)
  have "\<exists>n. P (descriptors t ! probe_slot t h n)"
    by auto
  then obtain n where "P (descriptors t ! probe_slot t h n)"
    "\<forall>i < n. \<not> P (descriptors t ! probe_slot t h i)"
    using exists_least_iff[of "\<lambda>n. P (descriptors t ! probe_slot t h n)"] by auto
  then show ?thesis ..
qed

text \<open>With no slot to stop at, the lookup does not return.\<close>

lemma find_loop_diverges:
  assumes "table_shape t"
    and "\<forall>q < length (descriptors t). descriptors t ! q \<noteq> NULL \<and> retaddr E (descriptors t ! q) \<noteq> pc"
    and "h < length (descriptors t)"
  shows "find_loop E t pc h = None"
proof (rule ccontr)
  assume "find_loop E t pc h \<noteq> None"
  then obtain y where y: "find_loop E t pc h = Some y"
    by auto
  have "\<not> (table_shape t \<and> h < length (descriptors t)
      \<and> (\<forall>q < length (descriptors t). descriptors t ! q \<noteq> NULL \<and> retaddr E (descriptors t ! q) \<noteq> pc))"
    by (rule find_loop.raw_induct[where P = "\<lambda>E t pc h y. \<not> (table_shape t \<and> h < length (descriptors t)
      \<and> (\<forall>q < length (descriptors t). descriptors t ! q \<noteq> NULL \<and> retaddr E (descriptors t ! q) \<noteq> pc))",
      OF _ y])
      (auto simp: load_slot_def next_slot_less split: if_splits)
  with assms show False
    by blast
qed

lemma find_frame_descr_diverges:
  assumes "table_shape t"
    and "\<forall>x \<in> set (descriptors t). x \<noteq> NULL \<and> retaddr E x \<noteq> pc"
  shows "caml_find_frame_descr E t pc = None"
  unfolding caml_find_frame_descr_def
  using assms by (intro find_loop_diverges) (auto simp: Hash_retaddr_less)

section \<open>A table without a null slot\<close>

lemma init_sample_four:
  "caml_init_frame_descriptors sample_env [1] = Some (Inr sample_four)"
  by (simp add: registry_eval sample_env_def sample_four_def)

lemma unregister_sample_four:
  "caml_unregister_frametables sample_env sample_four [1] 1 = Some (Inr (sample_tombs, [1]))"
  by (simp add: registry_eval sample_env_def sample_four_def sample_tombs_def)

lemma register_sample_tombs:
  "caml_register_frametables sample_env sample_tombs [2] 1 = Some (Inr sample_full)"
  by (simp add: registry_eval sample_env_def sample_tombs_def sample_full_def)

lemma unregister_sample_full:
  "caml_unregister_frametables sample_env sample_full [2] 1 = Some (Inr (sample_all_tombs, [2]))"
  by (simp add: registry_eval sample_env_def sample_full_def sample_all_tombs_def)

lemma reachable_sample_full: "reachable sample_env sample_full"
proof -
  have "reachable sample_env sample_four"
    using init_sample_four by (rule reachable_init)
  then have "reachable sample_env sample_tombs"
    using unregister_sample_four by (rule reachable_unregister)
  then show ?thesis
    using register_sample_tombs by (rule reachable_register)
qed

lemma table_shape_sample_full: "table_shape sample_full"
  unfolding table_shape_def by (rule exI[of _ 3]) (simp add: sample_full_def)

lemma table_shape_sample_all_tombs: "table_shape sample_all_tombs"
  unfolding table_shape_def by (rule exI[of _ 3]) (simp add: sample_all_tombs_def)

text \<open>
  C3. The loop of \<open>caml_find_frame_descr\<close> ends at a null slot or at a descriptor with the
  return address asked for, and a removal leaves the placeholder, not a null slot. Build
  the table from frametable 1 (4 descriptors, 8 slots), remove frametable 1 and register
  frametable 2, whose 4 descriptors go into the 4 slots that were still null: the count is
  4 of 8, and the loop for the return address 9999, which no descriptor has, never ends.
\<close>

theorem find_frame_descr_hangs:
  "reachable sample_env sample_full
   \<and> num_descr sample_full * 2 \<le> capacity sample_full
   \<and> caml_find_frame_descr sample_env sample_full 9999 = None"
proof (intro conjI)
  show "reachable sample_env sample_full"
    by (rule reachable_sample_full)
  show "num_descr sample_full * 2 \<le> capacity sample_full"
    by (simp add: sample_full_def capacity_def)
  show "caml_find_frame_descr sample_env sample_full 9999 = None"
    by (rule find_frame_descr_diverges[OF table_shape_sample_full])
      (simp add: sample_full_def sample_env_def)
qed

section \<open>The descriptors in the array\<close>

lemma lives_replicate_NULL: "lives (replicate n NULL) = []"
  by (induction n) auto

lemma length_lives_le: "length (lives xs) \<le> length xs"
  by (induction xs rule: lives.induct) auto

lemma in_lives_iff: "d \<in> set (lives xs) \<longleftrightarrow> Descr d \<in> set xs"
  by (induction xs rule: lives.induct) auto

lemma lives_free_slot:
  "length (lives xs) < length xs \<Longrightarrow> \<exists>q < length xs. xs ! q = NULL \<or> xs ! q = Dummy_descr"
proof (induction xs rule: lives.induct)
  case 1
  then show ?case by simp
next
  case (2 d xs)
  then obtain q where "q < length xs" "xs ! q = NULL \<or> xs ! q = Dummy_descr"
    by auto
  then show ?case
    by (intro exI[of _ "Suc q"]) simp
next
  case (3 xs)
  show ?case
    by (intro exI[of _ 0]) simp
next
  case (4 xs)
  show ?case
    by (intro exI[of _ 0]) simp
qed

lemma lives_store_descr:
  "q < length xs \<Longrightarrow> xs ! q = NULL \<or> xs ! q = Dummy_descr \<Longrightarrow>
     mset (lives (xs[q := Descr d])) = add_mset d (mset (lives xs))"
proof (induction xs arbitrary: q rule: lives.induct)
  case 1
  then show ?case by simp
next
  case (2 e xs)
  then show ?case by (cases q) auto
next
  case (3 xs)
  then show ?case by (cases q) auto
next
  case (4 xs)
  then show ?case by (cases q) auto
qed

lemma lives_store_dummy:
  "q < length xs \<Longrightarrow> xs ! q = Descr e \<Longrightarrow>
     add_mset e (mset (lives (xs[q := Dummy_descr]))) = mset (lives xs)"
proof (induction xs arbitrary: q rule: lives.induct)
  case 1
  then show ?case by simp
next
  case (2 e' xs)
  then show ?case by (cases q) auto
next
  case (3 xs)
  then show ?case by (cases q) auto
next
  case (4 xs)
  then show ?case by (cases q) auto
qed

section \<open>The lists of descriptors\<close>

lemma active_Nil: "active E [] = []"
  by (simp add: active_def)

lemma active_Cons: "active E (ft # fts) = frametable_at E ft @ active E fts"
  by (simp add: active_def)

lemma active_append: "active E (xs @ ys) = active E xs @ active E ys"
  by (simp add: active_def)

lemma set_active_rev: "set (active E (rev fts)) = set (active E fts)"
  by (auto simp: active_def)

lemma mset_active: "mset (active E fts) = (\<Sum>ft \<in># mset fts. mset (frametable_at E ft))"
  by (induction fts) (simp_all add: active_Nil active_Cons)

lemma count_descriptors_active: "count_descriptors E fts = int (length (active E fts))"
  by (induction fts) (simp_all add: active_Nil active_Cons)

lemma fill_frametable_append:
  "fill_frametable E t (xs @ ys) =
     (case fill_frametable E t xs of
        None \<Rightarrow> None
      | Some (Inl err) \<Rightarrow> Some (Inl err)
      | Some (Inr t') \<Rightarrow> fill_frametable E t' ys)"
  by (induction xs arbitrary: t) (auto split: option.splits sum.splits)

lemma fill_hashtable_active: "fill_hashtable E t fts = fill_frametable E t (active E fts)"
  by (induction fts arbitrary: t)
    (auto simp: active_Nil active_Cons fill_frametable_append split: option.splits sum.splits)

lemma invalid_frametable_append:
  "invalid_frametable E t (xs @ ys) =
     (case invalid_frametable E t xs of
        None \<Rightarrow> None
      | Some (Inl err) \<Rightarrow> Some (Inl err)
      | Some (Inr t') \<Rightarrow> invalid_frametable E t' ys)"
  by (induction xs arbitrary: t) (auto split: option.splits sum.splits)

lemma invalid_frametables_active:
  "invalid_frametables E t fts = invalid_frametable E t (active E fts)"
  by (induction fts arbitrary: t)
    (auto simp: active_Nil active_Cons invalid_frametable_append split: option.splits sum.splits)

section \<open>Insertion keeps the registry in order\<close>

lemma same_header_shape: "same_header t t' \<Longrightarrow> table_shape t \<Longrightarrow> table_shape t'"
  by (auto simp: same_header_def table_shape_def)

text \<open>Storing a descriptor in the first free slot of its probe sequence.\<close>

lemma chain_ok_store_descr:
  assumes shape: "table_shape t" and ok: "chain_ok E t"
    and free: "descriptors t ! probe_slot t (home E t d) n = NULL
               \<or> descriptors t ! probe_slot t (home E t d) n = Dummy_descr"
    and before: "\<forall>i < n. descriptors t ! probe_slot t (home E t d) i \<noteq> NULL
               \<and> descriptors t ! probe_slot t (home E t d) i \<noteq> Dummy_descr"
  shows "chain_ok E (store_slot t (probe_slot t (home E t d) n) (Descr d))"
proof -
  let ?q = "probe_slot t (home E t d) n"
  let ?t' = "store_slot t ?q (Descr d)"
  have q: "?q < length (descriptors t)"
    using shape by (rule probe_slot_less)
  have ps: "probe_slot ?t' h i = probe_slot t h i" for h i
    by (simp add: probe_slot_def store_slot_def)
  have hm: "home E ?t' e = home E t e" for e
    by (simp add: home_def store_slot_def)
  have len: "length (descriptors ?t') = length (descriptors t)"
    by (simp add: store_slot_def)
  have nth: "descriptors ?t' ! p = (if p = ?q then Descr d else descriptors t ! p)"
    if "p < length (descriptors t)" for p
    using that by (simp add: store_slot_def nth_list_update)
  have keep: "descriptors ?t' ! p \<noteq> NULL"
    if "p < length (descriptors t)" "descriptors t ! p \<noteq> NULL" for p
    using that nth by auto
  show ?thesis
    unfolding chain_ok_def len ps hm
  proof (intro allI impI)
    fix p e
    assume p: "p < length (descriptors t)" and e: "descriptors ?t' ! p = Descr e"
    show "\<exists>m. probe_slot t (home E t e) m = p
        \<and> (\<forall>i<m. descriptors ?t' ! probe_slot t (home E t e) i \<noteq> NULL)"
    proof (cases "p = ?q")
      case True
      with e q nth have "e = d"
        by simp
      moreover have "descriptors ?t' ! probe_slot t (home E t d) i \<noteq> NULL" if "i < n" for i
        using that before probe_slot_less[OF shape] by (intro keep) auto
      ultimately show ?thesis
        using True by blast
    next
      case False
      with e p nth have "descriptors t ! p = Descr e"
        by simp
      with ok p obtain m where m: "probe_slot t (home E t e) m = p"
        "\<forall>i<m. descriptors t ! probe_slot t (home E t e) i \<noteq> NULL"
        unfolding chain_ok_def by blast
      have "descriptors ?t' ! probe_slot t (home E t e) i \<noteq> NULL" if "i < m" for i
        using that m(2) probe_slot_less[OF shape] by (intro keep) auto
      with m(1) show ?thesis
        by blast
    qed
  qed
qed

lemma insert_descr_ok:
  assumes shape: "table_shape t" and ok: "chain_ok E t"
    and room: "length (lives (descriptors t)) < length (descriptors t)"
  shows "\<exists>t'. insert_descr E t d = Some (Inr t') \<and> same_header t t' \<and> chain_ok E t'
           \<and> mset (lives (descriptors t')) = add_mset d (mset (lives (descriptors t)))
           \<and> set (descriptors t') \<subseteq> insert (Descr d) (set (descriptors t))"
proof -
  let ?free = "\<lambda>x. x = NULL \<or> x = Dummy_descr"
  from lives_free_slot[OF room] obtain q where
    q: "q < length (descriptors t)" "?free (descriptors t ! q)"
    by blast
  have h: "home E t d < length (descriptors t)"
    using shape by (rule home_less)
  from first_probe[of "home E t d" t q ?free, OF h q] obtain n where
    n: "?free (descriptors t ! probe_slot t (home E t d) n)"
       "\<forall>i<n. \<not> ?free (descriptors t ! probe_slot t (home E t d) i)"
    by blast
  let ?q = "probe_slot t (home E t d) n"
  have "probe_free t (home E t d) = Some (Inr ?q)"
    using n by (intro probe_free_steps[OF shape h]) auto
  then have ins: "insert_descr E t d = Some (Inr (store_slot t ?q (Descr d)))"
    by (simp add: insert_descr_def home_def)
  moreover have "chain_ok E (store_slot t ?q (Descr d))"
    using n by (intro chain_ok_store_descr[OF shape ok]) auto
  moreover have "mset (lives (descriptors (store_slot t ?q (Descr d))))
      = add_mset d (mset (lives (descriptors t)))"
    using n(1) probe_slot_less[OF shape, of "home E t d" n]
    by (simp add: store_slot_def lives_store_descr)
  moreover have "set (descriptors (store_slot t ?q (Descr d))) \<subseteq> insert (Descr d) (set (descriptors t))"
    by (simp add: store_slot_def set_update_subset_insert)
  ultimately show ?thesis
    by (simp add: same_header_store)
qed

lemma fill_frametable_ok:
  "table_shape t \<Longrightarrow> chain_ok E t \<Longrightarrow>
   length (lives (descriptors t)) + length ds \<le> length (descriptors t) \<Longrightarrow>
   \<exists>t'. fill_frametable E t ds = Some (Inr t') \<and> same_header t t' \<and> chain_ok E t'
        \<and> mset (lives (descriptors t')) = mset (lives (descriptors t)) + mset ds
        \<and> set (descriptors t') \<subseteq> Descr ` set ds \<union> set (descriptors t)"
proof (induction ds arbitrary: t)
  case Nil
  then show ?case
    by (simp add: same_header_refl)
next
  case (Cons d ds)
  from Cons.prems have "length (lives (descriptors t)) < length (descriptors t)"
    by simp
  from insert_descr_ok[OF Cons.prems(1,2) this, of d] obtain t1 where
    t1: "insert_descr E t d = Some (Inr t1)" "same_header t t1" "chain_ok E t1"
        "mset (lives (descriptors t1)) = add_mset d (mset (lives (descriptors t)))"
        "set (descriptors t1) \<subseteq> insert (Descr d) (set (descriptors t))"
    by blast
  from t1(4) have "length (lives (descriptors t1)) = Suc (length (lives (descriptors t)))"
    by (metis size_mset size_add_mset)
  with Cons.prems(3) t1(2)
  have room: "length (lives (descriptors t1)) + length ds \<le> length (descriptors t1)"
    by (simp add: same_header_def)
  from Cons.IH[OF same_header_shape[OF t1(2) Cons.prems(1)] t1(3) room] obtain t' where
    t': "fill_frametable E t1 ds = Some (Inr t')" "same_header t1 t'" "chain_ok E t'"
        "mset (lives (descriptors t')) = mset (lives (descriptors t1)) + mset ds"
        "set (descriptors t') \<subseteq> Descr ` set ds \<union> set (descriptors t1)"
    by blast
  from t1(5) t'(5) have "set (descriptors t') \<subseteq> Descr ` set (d # ds) \<union> set (descriptors t)"
    by auto
  with t1 t' show ?case
    by (auto intro: same_header_trans)
qed

section \<open>Building and registering keep the registry in order\<close>

lemma chain_ok_frametables: "chain_ok E (t\<lparr>frametables := fts\<rparr>) = chain_ok E t"
  by (simp add: chain_ok_def home_def probe_slot_def)

lemma chain_ok_num_descr: "chain_ok E (t\<lparr>num_descr := n\<rparr>) = chain_ok E t"
  by (simp add: chain_ok_def home_def probe_slot_def)

lemma table_shape_frametables: "table_shape (t\<lparr>frametables := fts\<rparr>) = table_shape t"
  by (simp add: table_shape_def)

lemma table_shape_num_descr: "table_shape (t\<lparr>num_descr := n\<rparr>) = table_shape t"
  by (simp add: table_shape_def)

lemma realloc_registry_ok:
  assumes "realloc_frame_descriptors E table fts = Some (Inr table')"
  shows "registry_ok E table' \<and> frametables table' = fts \<and> NULL \<in> set (descriptors table')
         \<and> Dummy_descr \<notin> set (descriptors table')"
proof -
  let ?n = "count_descriptors E fts"
  obtain j where j: "grow_tblsize 4 ?n = Some (4 * 2 ^ j)" "2 * ?n \<le> 4 * 2 ^ j"
    using grow_tblsize_returns[of 4 ?n] by auto
  let ?t0 = "\<lparr>num_descr = ?n, mask = 4 * 2 ^ j - 1,
      descriptors = replicate (nat (4 * 2 ^ j)) NULL, frametables = frametables table\<rparr>"
  from assms j(1) obtain t1 where
    t1: "fill_hashtable E ?t0 fts = Some (Inr t1)" and t': "table' = t1\<lparr>frametables := fts\<rparr>"
    by (auto simp: realloc_frame_descriptors_def Let_def split: if_splits option.splits sum.splits)
  have len0: "length (descriptors ?t0) = 2 ^ (j + 2)"
    by (simp add: nat_mult_distrib nat_power_eq)
  have shape0: "table_shape ?t0"
    unfolding table_shape_def using len0 by (intro exI[of _ "j + 2"]) simp
  have chain0: "chain_ok E ?t0"
    by (simp add: chain_ok_def)
  have "int (length (active E fts)) \<le> 2 ^ (j + 2)"
    using j(2) by (simp add: count_descriptors_active)
  then have "length (active E fts) \<le> 2 ^ (j + 2)"
    by (metis of_nat_le_iff of_nat_numeral of_nat_power)
  then have room0: "length (lives (descriptors ?t0)) + length (active E fts) \<le> length (descriptors ?t0)"
    using len0 by (simp add: lives_replicate_NULL)
  from fill_frametable_ok[OF shape0 chain0 room0] t1 have
    hd: "same_header ?t0 t1" and chain1: "chain_ok E t1"
    and lives1: "mset (lives (descriptors t1)) = mset (active E fts)"
    and set1: "set (descriptors t1) \<subseteq> Descr ` set (active E fts) \<union> set (descriptors ?t0)"
    by (auto simp: fill_hashtable_active lives_replicate_NULL)
  from hd have f1: "mask t1 = 4 * 2 ^ j - 1" "num_descr t1 = ?n"
    "length (descriptors t1) = 2 ^ (j + 2)"
    using len0 by (simp_all add: same_header_def)
  have "registry_ok E table'"
    unfolding registry_ok_def t'
    using same_header_shape[OF hd shape0] chain1 lives1 f1 j(2)
    by (simp add: chain_ok_frametables table_shape_frametables count_descriptors_active)
  moreover have "frametables table' = fts"
    by (simp add: t')
  moreover have nd: "Dummy_descr \<notin> set (descriptors table')"
    using set1 by (auto simp: t')
  moreover have "NULL \<in> set (descriptors table')"
  proof -
    have la: "length (lives (descriptors t1)) = length (active E fts)"
      using lives1 by (metis size_mset)
    have "int (2 * length (active E fts)) \<le> int (2 ^ (j + 2))"
      using j(2) by (simp add: count_descriptors_active)
    then have "2 * length (active E fts) \<le> 2 ^ (j + 2)"
      by (simp only: of_nat_le_iff)
    then have "2 * length (lives (descriptors t1)) \<le> length (descriptors t1)"
      using la f1(3) by simp
    moreover have "0 < length (descriptors t1)"
      using f1(3) by simp
    ultimately have "length (lives (descriptors t1)) < length (descriptors t1)"
      by linarith
    from lives_free_slot[OF this] nd show ?thesis
      by (auto simp: t' in_set_conv_nth)
  qed
  ultimately show ?thesis
    by blast
qed


lemma registry_ok_capacity:
  assumes "registry_ok E t"
  shows "capacity t = int (length (descriptors t))"
proof -
  from assms obtain k where "mask t = 2 ^ k - 1" "length (descriptors t) = 2 ^ k"
    by (auto simp: registry_ok_def table_shape_def)
  then show ?thesis
    by (simp add: capacity_def)
qed

lemma registry_ok_length_lives:
  assumes "registry_ok E t"
  shows "int (length (lives (descriptors t))) = num_descr t"
proof -
  from assms have "mset (lives (descriptors t)) = mset (active E (frametables t))"
    by (simp add: registry_ok_def)
  then have "length (lives (descriptors t)) = length (active E (frametables t))"
    by (metis size_mset)
  with assms show ?thesis
    by (simp add: registry_ok_def)
qed

lemma fold_registry_ok:
  assumes ok: "registry_ok E t"
    and room: "\<not> capacity t < (num_descr t + count_descriptors E new_fts) * 2"
    and new: "new_fts \<noteq> []"
  shows "\<exists>t'. fold_frametables E t new_fts (count_descriptors E new_fts) = Some (Inr t')
           \<and> registry_ok E t' \<and> frametables t' = new_fts @ frametables t
           \<and> set (descriptors t') \<subseteq> Descr ` set (active E new_fts) \<union> set (descriptors t)"
proof -
  let ?cnt = "count_descriptors E new_fts"
  let ?t0 = "t\<lparr>num_descr := num_descr t + ?cnt\<rparr>"
  from ok have shape0: "table_shape ?t0" and chain0: "chain_ok E ?t0"
    by (simp_all add: registry_ok_def table_shape_num_descr chain_ok_num_descr)
  from room have le: "(num_descr t + ?cnt) * 2 \<le> int (length (descriptors t))"
    by (simp add: registry_ok_capacity[OF ok])
  have "int (length (lives (descriptors t)) + length (active E new_fts))
      \<le> int (length (descriptors t))"
    using le registry_ok_length_lives[OF ok] count_descriptors_nonneg[of E new_fts]
    by (simp add: count_descriptors_active)
  then have room0: "length (lives (descriptors ?t0)) + length (active E new_fts)
      \<le> length (descriptors ?t0)"
    by (simp only: of_nat_le_iff) simp
  from fill_frametable_ok[OF shape0 chain0 room0] obtain t1 where
    t1: "fill_frametable E ?t0 (active E new_fts) = Some (Inr t1)" "same_header ?t0 t1"
      "chain_ok E t1"
      "mset (lives (descriptors t1)) = mset (lives (descriptors ?t0)) + mset (active E new_fts)"
      "set (descriptors t1) \<subseteq> Descr ` set (active E new_fts) \<union> set (descriptors ?t0)"
    by blast
  let ?t' = "t1\<lparr>frametables := new_fts @ frametables t\<rparr>"
  from t1(2) have f1: "frametables t1 = frametables t" "num_descr t1 = num_descr t + ?cnt"
    "length (descriptors t1) = length (descriptors t)"
    by (simp_all add: same_header_def)
  have "fold_frametables E t new_fts ?cnt = Some (Inr ?t')"
    using t1(1) new f1(1) by (simp add: fold_frametables_def fill_hashtable_active link_tail_def)
  moreover have "registry_ok E ?t'"
    unfolding registry_ok_def
    using same_header_shape[OF t1(2) shape0] t1(3,4) f1 ok le
    by (simp add: table_shape_frametables chain_ok_frametables active_append
        count_descriptors_active registry_ok_def)
  moreover have "set (descriptors ?t') \<subseteq> Descr ` set (active E new_fts) \<union> set (descriptors t)"
    using t1(5) by simp
  ultimately show ?thesis
    by (intro exI[of _ ?t']) simp
qed

lemma register_rebuild_ok:
  assumes "capacity t < (num_descr t + count_descriptors E (rev (take n fts))) * 2"
    and "caml_register_frametables E t fts n = Some (Inr t')"
  shows "registry_ok E t' \<and> frametables t' = rev (take n fts) @ frametables t
         \<and> NULL \<in> set (descriptors t') \<and> Dummy_descr \<notin> set (descriptors t')"
proof -
  from assms have "realloc_frame_descriptors E t (rev (take n fts) @ frametables t) = Some (Inr t')"
    by (auto simp: caml_register_frametables_def add_frame_descriptors_def Let_def
        realloc_frame_descriptors_from_stw_single_def link_tail_def split: if_splits)
  from realloc_registry_ok[OF this] show ?thesis .
qed

lemma register_registry_ok:
  assumes ok: "registry_ok E t"
    and reg: "caml_register_frametables E t fts n = Some (Inr t')"
  shows "registry_ok E t' \<and> frametables t' = rev (take n fts) @ frametables t"
proof (cases "capacity t < (num_descr t + count_descriptors E (rev (take n fts))) * 2")
  case True
  from register_rebuild_ok[OF True reg] show ?thesis
    by blast
next
  case False
  let ?new = "rev (take n fts)"
  from False reg have fold: "fold_frametables E t ?new (count_descriptors E ?new) = Some (Inr t')"
    by (auto simp: caml_register_frametables_def add_frame_descriptors_def Let_def
        split: if_splits)
  then have "?new \<noteq> []"
    by (auto simp: fold_frametables_def link_tail_def split: option.splits sum.splits if_splits)
  from fold_registry_ok[OF ok False this] fold show ?thesis
    by auto
qed

section \<open>Lookups in a registry in order\<close>

lemma find_present_some:
  assumes shape: "table_shape t" and chain: "chain_ok E t"
    and p: "p < length (descriptors t)" "descriptors t ! p = Descr d"
  shows "\<exists>x \<in> set (descriptors t). x \<noteq> NULL \<and> retaddr E x = retaddr_at E d
           \<and> caml_find_frame_descr E t (retaddr_at E d) = Some (Inr x)"
proof -
  let ?pc = "retaddr_at E d"
  let ?h = "Hash_retaddr E ?pc (mask t)"
  let ?stop = "\<lambda>x. x = NULL \<or> retaddr E x = ?pc"
  have h: "?h < length (descriptors t)"
    using shape by (rule Hash_retaddr_less)
  from chain p obtain m where m: "probe_slot t ?h m = p"
    "\<forall>i<m. descriptors t ! probe_slot t ?h i \<noteq> NULL"
    unfolding chain_ok_def home_def by blast
  from p(2) have "?stop (descriptors t ! p)"
    by simp
  from first_probe[of ?h t p ?stop, OF h p(1) this] obtain n where
    n: "?stop (descriptors t ! probe_slot t ?h n)"
       "\<forall>i<n. \<not> ?stop (descriptors t ! probe_slot t ?h i)"
    by blast
  let ?x = "descriptors t ! probe_slot t ?h n"
  have "n \<le> m"
  proof (rule ccontr)
    assume "\<not> n \<le> m"
    with n(2) have "\<not> ?stop (descriptors t ! probe_slot t ?h m)"
      by simp
    with m(1) p(2) show False
      by simp
  qed
  have nn: "?x \<noteq> NULL"
  proof (cases "n = m")
    case True
    with m(1) p(2) show ?thesis by simp
  next
    case False
    with \<open>n \<le> m\<close> m(2) show ?thesis by simp
  qed
  moreover have "?x \<in> set (descriptors t)"
    using probe_slot_less[OF shape] by simp
  moreover have "retaddr E ?x = ?pc"
    using n(1) nn by blast
  moreover have "find_loop E t ?pc ?h = Some (Inr ?x)"
    using n by (intro find_loop_steps[OF shape h]) auto
  ultimately show ?thesis
    by (auto simp: caml_find_frame_descr_def)
qed

lemma find_present:
  assumes shape: "table_shape t" and chain: "chain_ok E t"
    and p: "p < length (descriptors t)" "descriptors t ! p = Descr d"
    and only: "\<forall>x \<in> set (descriptors t). x \<noteq> NULL \<and> retaddr E x = retaddr_at E d \<longrightarrow> x = Descr d"
  shows "caml_find_frame_descr E t (retaddr_at E d) = Some (Inr (Descr d))"
  using find_present_some[OF shape chain p] only by auto

lemma registry_ok_slot:
  assumes "registry_ok E t"
  shows "Descr d \<in> set (descriptors t) \<longleftrightarrow> d \<in> set (active E (frametables t))"
proof -
  from assms have "mset (lives (descriptors t)) = mset (active E (frametables t))"
    by (simp add: registry_ok_def)
  then have "set (lives (descriptors t)) = set (active E (frametables t))"
    by (metis set_mset_mset)
  then show ?thesis
    by (simp add: in_lives_iff[symmetric])
qed

lemma count_descriptors_rev: "count_descriptors E (rev fts) = count_descriptors E fts"
proof -
  have "mset (active E (rev fts)) = mset (active E fts)"
    by (simp add: mset_active)
  then have "length (active E (rev fts)) = length (active E fts)"
    by (metis size_mset)
  then show ?thesis
    by (simp add: count_descriptors_active)
qed

lemma find_registered:
  assumes ok: "registry_ok E t"
    and d: "d \<in> set (active E (frametables t))"
    and keys: "distinct (map (retaddr_at E) (active E (frametables t)))"
    and dummy: "Dummy_descr \<in> set (descriptors t) \<longrightarrow>
                  dummy_retaddr E \<notin> retaddr_at E ` set (active E (frametables t))"
  shows "caml_find_frame_descr E t (retaddr_at E d) = Some (Inr (Descr d))"
proof -
  from ok have lives: "mset (lives (descriptors t)) = mset (active E (frametables t))"
    and shape: "table_shape t" and chain: "chain_ok E t"
    by (simp_all add: registry_ok_def)
  from lives have set_eq: "set (lives (descriptors t)) = set (active E (frametables t))"
    by (metis set_mset_mset)
  with d have "Descr d \<in> set (descriptors t)"
    by (simp add: in_lives_iff[symmetric])
  then obtain p where p: "p < length (descriptors t)" "descriptors t ! p = Descr d"
    by (auto simp: in_set_conv_nth)
  have "x = Descr d"
    if x: "x \<in> set (descriptors t)" "x \<noteq> NULL" "retaddr E x = retaddr_at E d" for x
  proof (cases x)
    case NULL
    with x show ?thesis by simp
  next
    case Dummy_descr
    with x dummy d show ?thesis by auto
  next
    case (Descr e)
    with x(1) set_eq have "e \<in> set (active E (frametables t))"
      by (simp add: in_lives_iff[symmetric])
    moreover from x(3) Descr have "retaddr_at E e = retaddr_at E d"
      by simp
    ultimately have "e = d"
      using keys d by (meson distinct_map inj_onD)
    with Descr show ?thesis by simp
  qed
  then show ?thesis
    by (intro find_present[OF shape chain p]) blast
qed

lemma find_absent:
  assumes shape: "table_shape t"
    and absent: "\<forall>x \<in> set (descriptors t). x \<noteq> NULL \<longrightarrow> retaddr E x \<noteq> pc"
  shows "caml_find_frame_descr E t pc
           = (if NULL \<in> set (descriptors t) then Some (Inr NULL) else None)"
proof (cases "NULL \<in> set (descriptors t)")
  case True
  let ?h = "Hash_retaddr E pc (mask t)"
  let ?stop = "\<lambda>x. x = NULL \<or> retaddr E x = pc"
  have h: "?h < length (descriptors t)"
    using shape by (rule Hash_retaddr_less)
  from True obtain q where q: "q < length (descriptors t)" "descriptors t ! q = NULL"
    by (auto simp: in_set_conv_nth)
  then have "?stop (descriptors t ! q)"
    by simp
  from first_probe[of ?h t q ?stop, OF h q(1) this] obtain n where
    n: "?stop (descriptors t ! probe_slot t ?h n)"
       "\<forall>i<n. \<not> ?stop (descriptors t ! probe_slot t ?h i)"
    by blast
  have "descriptors t ! probe_slot t ?h n \<in> set (descriptors t)"
    using probe_slot_less[OF shape] by simp
  with n(1) absent have "descriptors t ! probe_slot t ?h n = NULL"
    by blast
  moreover have "find_loop E t pc ?h = Some (Inr (descriptors t ! probe_slot t ?h n))"
    using n by (intro find_loop_steps[OF shape h]) auto
  ultimately show ?thesis
    using True by (simp add: caml_find_frame_descr_def)
next
  case False
  with absent have "\<forall>x \<in> set (descriptors t). x \<noteq> NULL \<and> retaddr E x \<noteq> pc"
    by metis
  from find_frame_descr_diverges[OF shape this] False show ?thesis
    by simp
qed


section \<open>Lookups after a rebuild\<close>

text \<open>What a registration that has rebuilt the table and returned leaves behind.\<close>

lemma rebuild_result:
  assumes "capacity t < (num_descr t + count_descriptors E (take ntables fts)) * 2"
    and "caml_register_frametables E t fts ntables = Some (Inr t')"
    and "d \<in> set (active E (frametables t))"
  shows "registry_ok E t' \<and> frametables t' = rev (take ntables fts) @ frametables t
    \<and> Dummy_descr \<notin> set (descriptors t')
    \<and> (\<exists>e \<in> set (active E (frametables t')). retaddr_at E e = retaddr_at E d
          \<and> caml_find_frame_descr E t' (retaddr_at E d) = Some (Inr (Descr e)))
    \<and> (distinct (map (retaddr_at E) (active E (frametables t')))
          \<longrightarrow> caml_find_frame_descr E t' (retaddr_at E d) = Some (Inr (Descr d)))"
proof -
  from assms(1) have "capacity t < (num_descr t + count_descriptors E (rev (take ntables fts))) * 2"
    by (simp add: count_descriptors_rev)
  from register_rebuild_ok[OF this assms(2)] have
    ok: "registry_ok E t'" and fts: "frametables t' = rev (take ntables fts) @ frametables t"
    and nd: "Dummy_descr \<notin> set (descriptors t')"
    by simp_all
  from assms(3) fts have d: "d \<in> set (active E (frametables t'))"
    by (simp add: active_append)
  then have "Descr d \<in> set (descriptors t')"
    by (simp add: registry_ok_slot[OF ok])
  then obtain p where p: "p < length (descriptors t')" "descriptors t' ! p = Descr d"
    by (auto simp: in_set_conv_nth)
  from ok have "table_shape t'" "chain_ok E t'"
    by (simp_all add: registry_ok_def)
  from find_present_some[OF this p] obtain x where
    x: "x \<in> set (descriptors t')" "x \<noteq> NULL" "retaddr E x = retaddr_at E d"
       "caml_find_frame_descr E t' (retaddr_at E d) = Some (Inr x)"
    by blast
  from x(1,2) nd have "x \<noteq> NULL" "x \<noteq> Dummy_descr"
    by auto
  then obtain e where e: "x = Descr e"
    by (cases x) simp_all
  with x(1) have ea: "e \<in> set (active E (frametables t'))"
    by (simp add: registry_ok_slot[OF ok])
  have "e = d" if "distinct (map (retaddr_at E) (active E (frametables t')))"
    using that ea d x(3) e by (auto simp: distinct_map dest: inj_onD)
  with ok fts nd e ea x(3,4) show ?thesis
    by auto
qed

section \<open>Removal keeps the registry in order\<close>

lemma tombstoned_shape: "tombstoned R t t' \<Longrightarrow> table_shape t \<Longrightarrow> table_shape t'"
  by (auto simp: tombstoned_def table_shape_def)

lemma tombstoned_chain_ok:
  assumes tomb: "tombstoned R t t'" and shape: "table_shape t" and chain: "chain_ok E t"
  shows "chain_ok E t'"
proof -
  from tomb have len: "length (descriptors t') = length (descriptors t)" and m: "mask t' = mask t"
    and slot: "\<And>q. q < length (descriptors t) \<Longrightarrow>
      descriptors t' ! q = descriptors t ! q \<or> descriptors t' ! q = Dummy_descr"
    by (auto simp: tombstoned_def)
  have ps: "probe_slot t' h i = probe_slot t h i" for h i
    by (simp add: probe_slot_def len)
  have hm: "home E t' e = home E t e" for e
    by (simp add: home_def m)
  show ?thesis
    unfolding chain_ok_def len ps hm
  proof (intro allI impI)
    fix p e
    assume p: "p < length (descriptors t)" and e: "descriptors t' ! p = Descr e"
    with slot[OF p] have "descriptors t ! p = Descr e"
      by auto
    with chain p obtain n where n: "probe_slot t (home E t e) n = p"
      "\<forall>i<n. descriptors t ! probe_slot t (home E t e) i \<noteq> NULL"
      unfolding chain_ok_def by blast
    have "descriptors t' ! probe_slot t (home E t e) i \<noteq> NULL" if "i < n" for i
      using slot[OF probe_slot_less[OF shape, of "home E t e" i]] n(2) that by auto
    with n(1) show "\<exists>n. probe_slot t (home E t e) n = p
        \<and> (\<forall>i<n. descriptors t' ! probe_slot t (home E t e) i \<noteq> NULL)"
      by blast
  qed
qed

lemma invalid_entry_ok:
  assumes shape: "table_shape t" and e: "Descr e \<in> set (descriptors t)"
  shows "\<exists>q < length (descriptors t). descriptors t ! q = Descr e
           \<and> invalid_entry E t e = Some (Inr (store_slot t q Dummy_descr))"
proof -
  from e obtain p where p: "p < length (descriptors t)" "descriptors t ! p = Descr e"
    by (auto simp: in_set_conv_nth)
  have h: "home E t e < length (descriptors t)"
    using shape by (rule home_less)
  from first_probe[of "home E t e" t p "\<lambda>x. x = Descr e", OF h p] obtain n where
    n: "descriptors t ! probe_slot t (home E t e) n = Descr e"
       "\<forall>i<n. descriptors t ! probe_slot t (home E t e) i \<noteq> Descr e"
    by blast
  from invalid_loop_steps[OF shape h n(2) n(1)] n(1) probe_slot_less[OF shape] show ?thesis
    by (auto simp: invalid_entry_def home_def)
qed

lemma invalid_frametable_ok:
  "table_shape t \<Longrightarrow> mset ds \<subseteq># mset (lives (descriptors t)) \<Longrightarrow>
   \<exists>t'. invalid_frametable E t ds = Some (Inr t')
        \<and> mset (lives (descriptors t')) + mset ds = mset (lives (descriptors t))"
proof (induction ds arbitrary: t)
  case Nil
  then show ?case by simp
next
  case (Cons e ds)
  from Cons.prems(2) have "e \<in># mset (lives (descriptors t))"
    by (simp add: insert_subset_eq_iff)
  then have "Descr e \<in> set (descriptors t)"
    by (simp add: in_lives_iff)
  from invalid_entry_ok[OF Cons.prems(1) this] obtain q where
    q: "q < length (descriptors t)" "descriptors t ! q = Descr e"
       "invalid_entry E t e = Some (Inr (store_slot t q Dummy_descr))"
    by blast
  let ?t1 = "store_slot t q Dummy_descr"
  from q(1,2) have l1: "add_mset e (mset (lives (descriptors ?t1))) = mset (lives (descriptors t))"
    by (simp add: store_slot_def lives_store_dummy)
  with Cons.prems(2) have "mset ds \<subseteq># mset (lives (descriptors ?t1))"
    by (metis mset.simps(2) mset_subset_eq_add_mset_cancel)
  moreover have "table_shape ?t1"
    using same_header_shape[OF same_header_store Cons.prems(1)] .
  ultimately obtain t' where
    t': "invalid_frametable E ?t1 ds = Some (Inr t')"
        "mset (lives (descriptors t')) + mset ds = mset (lives (descriptors ?t1))"
    using Cons.IH by blast
  from t'(2) l1 have "mset (lives (descriptors t')) + mset (e # ds) = mset (lives (descriptors t))"
    by (metis mset.simps(2) union_mset_add_mset_right)
  with q(3) t'(1) show ?case
    by simp
qed

section \<open>Unlinking the removed frametables\<close>

lemma first_match_None:
  "first_match c A i k = None \<longleftrightarrow> (\<forall>j. i \<le> j \<and> j < i + k \<longrightarrow> A ! j \<noteq> c)"
proof (induction k arbitrary: i)
  case 0
  then show ?case by simp
next
  case (Suc k)
  show ?case
  proof (cases "A ! i = c")
    case True
    then show ?thesis by auto
  next
    case False
    have "(\<forall>j. i \<le> j \<and> j < i + Suc k \<longrightarrow> A ! j \<noteq> c)
        \<longleftrightarrow> (\<forall>j. Suc i \<le> j \<and> j < Suc i + k \<longrightarrow> A ! j \<noteq> c)"
      using False by (metis Suc_leD Suc_leI add_Suc add_Suc_right le_neq_implies_less)
    with False Suc.IH[of "Suc i"] show ?thesis
      by simp
  qed
qed

lemma first_match_Some:
  "first_match c A i k = Some j \<Longrightarrow> i \<le> j \<and> j < i + k \<and> A ! j = c"
proof (induction k arbitrary: i)
  case 0
  then show ?case by simp
next
  case (Suc k)
  then show ?case
    by (fastforce split: if_splits)
qed

lemma first_match_take_None:
  assumes "n \<le> length A"
  shows "first_match c A 0 n = None \<longleftrightarrow> c \<notin> set (take n A)"
  using assms by (auto simp: first_match_None in_set_conv_nth)

lemma take_swap_remove:
  assumes "i < n" "n \<le> length A"
  shows "mset (take (n - 1) (A[i := A ! (n - 1)])) = mset (take n A) - {#A ! i#}"
proof -
  from assms obtain m where n: "n = Suc m"
    by (cases n) auto
  with assms have m: "m < length A" "i \<le> m"
    by auto
  have tk: "take (Suc m) A = take m A @ [A ! m]"
    using m(1) by (simp add: take_Suc_conv_app_nth)
  show ?thesis
  proof (cases "i = m")
    case True
    then show ?thesis
      by (simp add: n tk)
  next
    case False
    with m have i: "i < m"
      by simp
    then have "A ! i \<in># mset (take m A)"
      using m(1) by (metis length_take min.absorb2 less_imp_le nth_mem_mset nth_take)
    moreover have "mset (take m (A[i := A ! m]))
        = add_mset (A ! m) (mset (take m A) - {#A ! i#})"
      using i m(1) by (simp add: take_update_swap mset_update)
    ultimately show ?thesis
      by (simp add: n tk)
  qed
qed

lemma unlink_frametables_ok:
  "n \<le> length A \<Longrightarrow> mset (take n A) \<subseteq># mset cur \<Longrightarrow>
   \<exists>l A'. unlink_frametables kept cur A n = Inr (l, A')
       \<and> mset l + mset (take n A) = mset kept + mset cur"
proof (induction cur arbitrary: kept A n)
  case Nil
  then show ?case by simp
next
  case (Cons c rest)
  let ?M = "mset (take n A)"
  show ?case
  proof (cases "first_match c A 0 n")
    case None
    with Cons.prems(1) have "c \<notin># ?M"
      by (simp add: first_match_take_None)
    have "?M - {#c#} \<subseteq># mset rest"
      using Cons.prems(2) by (simp add: subset_eq_diff_conv)
    with \<open>c \<notin># ?M\<close> have "?M \<subseteq># mset rest"
      by simp
    from Cons.IH[OF Cons.prems(1) this, of "c # kept"] None show ?thesis
      by auto
  next
    case (Some i)
    from first_match_Some[OF Some] have i: "i < n" "A ! i = c"
      by auto
    with Cons.prems(1) have cM: "c \<in># ?M"
      by (metis in_set_conv_nth length_take min.absorb2 nth_take set_mset_mset)
    show ?thesis
    proof (cases "n - 1 = 0")
      case True
      with i have "n = 1" "i = 0"
        by auto
      with Cons.prems(1) i(2) have "?M = {#c#}"
        by (cases A) auto
      with Some True show ?thesis
        by simp
    next
      case False
      let ?A' = "A[i := A ! (n - 1)]"
      have M': "mset (take (n - 1) ?A') = ?M - {#c#}"
        using take_swap_remove[OF i(1) Cons.prems(1)] i(2) by simp
      with Cons.prems(2) have sub: "mset (take (n - 1) ?A') \<subseteq># mset rest"
        by (simp add: subset_eq_diff_conv)
      have "size (mset (take (n - 1) ?A')) = n - 1"
        using Cons.prems(1) by simp
      with False have "mset (take (n - 1) ?A') \<noteq> {#}"
        by auto
      with sub have rest: "rest \<noteq> []"
        by auto
      have "n - 1 \<le> length ?A'"
        using Cons.prems(1) by simp
      from Cons.IH[OF this sub, of kept] obtain l A'' where
        l: "unlink_frametables kept rest ?A' (n - 1) = Inr (l, A'')"
           "mset l + mset (take (n - 1) ?A') = mset kept + mset rest"
        by blast
      from l(2) M' cM have "mset l + ?M = mset kept + mset (c # rest)"
        by (metis add_mset_add_single insert_DiffM mset.simps(2) union_mset_add_mset_right)
      with l(1) Some False rest show ?thesis
        by simp
    qed
  qed
qed

lemma mset_active_mono:
  assumes "mset xs \<subseteq># mset ys"
  shows "mset (active E xs) \<subseteq># mset (active E ys)"
proof -
  from assms obtain C where "mset ys = mset xs + C"
    by (auto simp: mset_subset_eq_exists_conv)
  then show ?thesis
    by (simp add: mset_active)
qed

lemma mset_active_add:
  assumes "mset l + mset xs = mset ys"
  shows "mset (active E l) + mset (active E xs) = mset (active E ys)"
  by (simp add: mset_active assms[symmetric])

lemma unregister_registry_ok:
  assumes ok: "registry_ok E t"
    and n: "n \<le> length fts"
    and sub: "mset (take n fts) \<subseteq># mset (frametables t)"
  shows "\<exists>t' fts'. caml_unregister_frametables E t fts n = Some (Inr (t', fts'))
           \<and> registry_ok E t'
           \<and> mset (frametables t') + mset (take n fts) = mset (frametables t)"
proof -
  let ?rm = "active E (take n fts)"
  from ok have shape: "table_shape t" and chain: "chain_ok E t"
    and lives: "mset (lives (descriptors t)) = mset (active E (frametables t))"
    and num: "num_descr t = int (length (active E (frametables t)))"
    and half: "2 * num_descr t \<le> int (length (descriptors t))"
    by (simp_all add: registry_ok_def)
  have "mset ?rm \<subseteq># mset (lives (descriptors t))"
    using mset_active_mono[OF sub] lives by simp
  from invalid_frametable_ok[OF shape this] obtain t1 where
    t1: "invalid_frametables E t (take n fts) = Some (Inr t1)"
        "mset (lives (descriptors t1)) + mset ?rm = mset (lives (descriptors t))"
    by (auto simp: invalid_frametables_active)
  from invalid_frametables_header[OF t1(1)] have
    h1: "mask t1 = mask t" "num_descr t1 = num_descr t" "frametables t1 = frametables t"
      "length (descriptors t1) = length (descriptors t)"
    by (simp_all add: same_header_def)
  from invalid_frametables_tombstoned[OF t1(1)] have tomb: "tombstoned (set ?rm) t t1" .
  from unlink_frametables_ok[OF n sub, of "[]"] obtain l fts' where
    l: "unlink_frametables [] (frametables t) fts n = Inr (l, fts')"
       "mset l + mset (take n fts) = mset (frametables t)"
    by auto
  let ?t' = "t1\<lparr>num_descr := num_descr t1 - count_descriptors E (take n fts), frametables := l\<rparr>"
  have run: "caml_unregister_frametables E t fts n = Some (Inr (?t', fts'))"
    using n t1(1) l(1) h1(3)
    by (simp add: caml_unregister_frametables_def remove_frame_descriptors_def Let_def)
  have act: "mset (active E l) + mset ?rm = mset (active E (frametables t))"
    using mset_active_add[OF l(2)] .
  with t1(2) lives have lives': "mset (lives (descriptors t1)) = mset (active E l)"
    by (metis add_right_imp_eq)
  from act have "length (active E l) + length ?rm = length (active E (frametables t))"
    by (metis size_mset size_union)
  with num h1(2) have num': "num_descr t1 - count_descriptors E (take n fts) = int (length (active E l))"
    by (simp add: count_descriptors_active)
  have "registry_ok E ?t'"
    unfolding registry_ok_def
    using tombstoned_shape[OF tomb shape] tombstoned_chain_ok[OF tomb shape chain]
      lives' num' half h1(2,4) count_descriptors_nonneg[of E "take n fts"]
    by (simp add: table_shape_def chain_ok_def home_def probe_slot_def)
  with run l(2) show ?thesis
    by (intro exI[of _ ?t'] exI[of _ fts']) simp
qed

section \<open>Registering and removing\<close>

text \<open>
  The round trip where the array keeps a null slot. In a registry in order, let a
  registration return, and let the descriptors of the frametables then registered have
  return addresses that differ from one another and from the one the placeholder holds.
  Then the lookup of the return address of a descriptor of the frametables just registered
  returns that descriptor. The removal of the same frametables returns and leaves a
  registry in order, in which no descriptor has that return address, and the lookup
  returns the null pointer when the array has a null slot.
\<close>

lemma round_trip_in_order:
  assumes ok: "registry_ok E t"
    and reg: "caml_register_frametables E t fts ntables = Some (Inr t')"
    and keys: "distinct (map (retaddr_at E) (active E (frametables t')))"
    and dummy: "dummy_retaddr E \<notin> retaddr_at E ` set (active E (frametables t'))"
    and d: "d \<in> set (active E (take ntables fts))"
  shows "caml_find_frame_descr E t' (retaddr_at E d) = Some (Inr (Descr d))
    \<and> (\<exists>t'' fts'. caml_unregister_frametables E t' fts ntables = Some (Inr (t'', fts'))
          \<and> registry_ok E t''
          \<and> (\<forall>r. caml_find_frame_descr E t'' (retaddr_at E d) = Some r \<longrightarrow> r = Inr NULL)
          \<and> (NULL \<in> set (descriptors t'')
                \<longrightarrow> caml_find_frame_descr E t'' (retaddr_at E d) = Some (Inr NULL)))"
proof -
  let ?new = "take ntables fts"
  from register_registry_ok[OF ok reg] have ok': "registry_ok E t'"
    and fts': "frametables t' = rev ?new @ frametables t"
    by simp_all
  from d fts' have d': "d \<in> set (active E (frametables t'))"
    by (simp add: active_append set_active_rev)
  have found: "caml_find_frame_descr E t' (retaddr_at E d) = Some (Inr (Descr d))"
    using find_registered[OF ok' d' keys] dummy by blast
  from reg have n: "ntables \<le> length fts"
    by (auto simp: caml_register_frametables_def split: if_splits)
  have sub: "mset ?new \<subseteq># mset (frametables t')"
    by (simp add: fts')
  from unregister_registry_ok[OF ok' n sub] obtain t'' fts'' where
    un: "caml_unregister_frametables E t' fts ntables = Some (Inr (t'', fts''))"
    and ok'': "registry_ok E t''"
    and rest: "mset (frametables t'') + mset ?new = mset (frametables t')"
    by blast
  have act: "mset (active E (frametables t'')) + mset (active E ?new)
      = mset (active E (frametables t'))"
    using mset_active_add[OF rest] .
  from keys have dist: "distinct (active E (frametables t'))"
    by (simp add: distinct_map)
  have absent: "retaddr E x \<noteq> retaddr_at E d" if x: "x \<in> set (descriptors t'')" "x \<noteq> NULL" for x
  proof (cases x)
    case NULL
    with x show ?thesis by simp
  next
    case Dummy_descr
    with dummy d' show ?thesis by auto
  next
    case (Descr e)
    with x(1) have e: "e \<in> set (active E (frametables t''))"
      by (simp add: registry_ok_slot[OF ok''])
    then have e': "e \<in> set (active E (frametables t'))"
      using act by (metis set_mset_mset union_iff)
    show ?thesis
    proof
      assume "retaddr E x = retaddr_at E d"
      with Descr have "retaddr_at E e = retaddr_at E d"
        by simp
      with keys e' d' have "e = d"
        by (auto simp: distinct_map dest: inj_onD)
      with e d have "2 \<le> count (mset (active E (frametables t''))) d + count (mset (active E ?new)) d"
        by (metis add_mono count_greater_eq_one_iff one_add_one set_mset_mset)
      then have "2 \<le> count (mset (active E (frametables t'))) d"
        by (simp add: act[symmetric])
      moreover from dist have "count (mset (active E (frametables t'))) d \<le> 1"
        by (simp add: distinct_count_atmost_1)
      ultimately show False
        by simp
    qed
  qed
  from ok'' have "table_shape t''"
    by (simp add: registry_ok_def)
  from find_absent[OF this, of E "retaddr_at E d"] absent
  have "caml_find_frame_descr E t'' (retaddr_at E d)
      = (if NULL \<in> set (descriptors t'') then Some (Inr NULL) else None)"
    by blast
  with found un ok'' show ?thesis
    by auto
qed


lemma find_sample_full:
  "caml_find_frame_descr sample_env sample_full (retaddr_at sample_env 4) = Some (Inr (Descr 4))"
  by (simp add: registry_eval sample_env_def sample_full_def)

lemma registry_state_sample_tombs: "registry_state sample_env sample_tombs"
proof -
  have "registry_state sample_env sample_four"
    using init_sample_four by (rule registry_init)
  moreover have "mset (take 1 [1]) \<subseteq># mset (frametables sample_four)"
    by (simp add: sample_four_def)
  ultimately show ?thesis
    using unregister_sample_four by (rule registry_unregister)
qed

text \<open>
  C1. The round trip, in the table that building from frametable 1 and removing it leaves
  (8 slots, 4 of them null). Frametable 2 is registered, in place: the lookup of the return
  address of its descriptor 4 returns that descriptor. Frametable 2 is removed: the lookup
  of the same return address, which is to return the null pointer now, does not return,
  because all 8 slots hold the placeholder.
\<close>

theorem round_trip_hangs:
  "registry_state sample_env sample_tombs
   \<and> caml_register_frametables sample_env sample_tombs [2] 1 = Some (Inr sample_full)
   \<and> 4 \<in> set (frametable_at sample_env 2)
   \<and> caml_find_frame_descr sample_env sample_full (retaddr_at sample_env 4)
        = Some (Inr (Descr 4))
   \<and> caml_unregister_frametables sample_env sample_full [2] 1
        = Some (Inr (sample_all_tombs, [2]))
   \<and> NULL \<notin> set (descriptors sample_all_tombs)
   \<and> caml_find_frame_descr sample_env sample_all_tombs (retaddr_at sample_env 4) = None"
proof (intro conjI)
  show "registry_state sample_env sample_tombs"
    by (rule registry_state_sample_tombs)
  show "caml_register_frametables sample_env sample_tombs [2] 1 = Some (Inr sample_full)"
    by (rule register_sample_tombs)
  show "4 \<in> set (frametable_at sample_env 2)"
    by (simp add: sample_env_def)
  show "caml_find_frame_descr sample_env sample_full (retaddr_at sample_env 4)
        = Some (Inr (Descr 4))"
    by (rule find_sample_full)
  show "caml_unregister_frametables sample_env sample_full [2] 1
        = Some (Inr (sample_all_tombs, [2]))"
    by (rule unregister_sample_full)
  show "NULL \<notin> set (descriptors sample_all_tombs)"
    by (simp add: sample_all_tombs_def)
  show "caml_find_frame_descr sample_env sample_all_tombs (retaddr_at sample_env 4) = None"
    by (rule find_frame_descr_diverges[OF table_shape_sample_all_tombs])
      (simp add: sample_all_tombs_def sample_env_def)
qed

section \<open>When the entry points return\<close>

lemma realloc_frame_descriptors_returns:
  assumes alloc: "\<forall>n. stat_alloc E n"
    and small: "count_descriptors E fts \<le> 2 ^ 29"
  shows "\<exists>table'. realloc_frame_descriptors E table fts = Some (Inr table')"
proof -
  let ?n = "count_descriptors E fts"
  obtain j where j: "grow_tblsize 4 ?n = Some (4 * 2 ^ j)" "2 * ?n \<le> 4 * 2 ^ j"
    "j = 0 \<or> 4 * 2 ^ (j - 1) < 2 * ?n"
    using grow_tblsize_returns[of 4 ?n] by auto
  have size: "(4::int) * 2 ^ j \<le> 2 ^ 30"
  proof (cases j)
    case 0
    then show ?thesis by simp
  next
    case (Suc i)
    with j(3) small have "(2::int) ^ (i + 2) < 2 ^ 30"
      by simp
    then have "i + 2 < 30"
      using power_less_imp_less_exp[of "2::int" "i + 2" 30] by simp
    then have "(2::int) ^ (Suc i + 2) \<le> 2 ^ 30"
      by (intro power_increasing) simp_all
    with Suc show ?thesis
      by simp
  qed
  let ?t0 = "\<lparr>num_descr = ?n, mask = 4 * 2 ^ j - 1,
      descriptors = replicate (nat (4 * 2 ^ j)) NULL, frametables = frametables table\<rparr>"
  have len0: "length (descriptors ?t0) = 2 ^ (j + 2)"
    by (simp add: nat_mult_distrib nat_power_eq)
  have shape0: "table_shape ?t0"
    unfolding table_shape_def using len0 by (intro exI[of _ "j + 2"]) simp
  have chain0: "chain_ok E ?t0"
    by (simp add: chain_ok_def)
  have "int (length (active E fts)) \<le> int (2 ^ (j + 2))"
    using j(2) by (simp add: count_descriptors_active)
  then have "length (active E fts) \<le> 2 ^ (j + 2)"
    by (simp only: of_nat_le_iff)
  then have room0: "length (lives (descriptors ?t0)) + length (active E fts) \<le> length (descriptors ?t0)"
    using len0 by (simp add: lives_replicate_NULL)
  from fill_frametable_ok[OF shape0 chain0 room0] obtain t1 where
    "fill_hashtable E ?t0 fts = Some (Inr t1)"
    by (auto simp: fill_hashtable_active)
  with j(1) size alloc show ?thesis
    by (simp add: realloc_frame_descriptors_def)
qed

lemma register_frametables_returns:
  assumes ok: "registry_ok E t"
    and n: "0 < ntables" "ntables \<le> length fts"
    and alloc: "\<forall>n. stat_alloc E n"
    and small: "num_descr t + count_descriptors E (take ntables fts) \<le> 2 ^ 29"
  shows "\<exists>t'. caml_register_frametables E t fts ntables = Some (Inr t')"
proof -
  let ?new = "rev (take ntables fts)"
  from n have new: "?new \<noteq> []"
    by (cases fts) auto
  show ?thesis
  proof (cases "capacity t < (num_descr t + count_descriptors E ?new) * 2")
    case True
    have "count_descriptors E (?new @ frametables t)
        = num_descr t + count_descriptors E (take ntables fts)"
      using ok by (simp add: count_descriptors_active active_append registry_ok_def
          set_active_rev count_descriptors_rev[unfolded count_descriptors_active])
    with small have "count_descriptors E (?new @ frametables t) \<le> 2 ^ 29"
      by simp
    from realloc_frame_descriptors_returns[OF alloc this, of t] True new n(2) show ?thesis
      by (simp add: caml_register_frametables_def add_frame_descriptors_def
          realloc_frame_descriptors_from_stw_single_def link_tail_def)
  next
    case False
    from fold_registry_ok[OF ok False new] False n(2) show ?thesis
      by (auto simp: caml_register_frametables_def add_frame_descriptors_def)
  qed
qed


text \<open>Used as meant, the registry is in order in every state.\<close>

lemma registry_state_ok: "registry_state E t \<Longrightarrow> registry_ok E t"
proof (induction rule: registry_state.induct)
  case (registry_init caml_frametable table)
  then show ?case
    using realloc_registry_ok by (simp add: caml_init_frame_descriptors_def)
next
  case (registry_register table fts ntables table')
  then show ?case
    using register_registry_ok by blast
next
  case (registry_unregister table ntables fts table' fts')
  from registry_unregister.hyps(3) have "ntables \<le> length fts"
    by (auto simp: caml_unregister_frametables_def remove_frame_descriptors_def split: if_splits)
  from unregister_registry_ok[OF registry_unregister.IH this registry_unregister.hyps(2)]
    registry_unregister.hyps(3)
  show ?case
    by auto
qed

section \<open>Lookups that return\<close>

text \<open>In a table of the built shape with a null slot, every lookup returns.\<close>

lemma find_frame_descr_returns:
  assumes shape: "table_shape t" and null: "NULL \<in> set (descriptors t)"
  shows "\<exists>d. caml_find_frame_descr E t pc = Some (Inr d)"
proof -
  let ?h = "Hash_retaddr E pc (mask t)"
  let ?stop = "\<lambda>x. x = NULL \<or> retaddr E x = pc"
  have h: "?h < length (descriptors t)"
    using shape by (rule Hash_retaddr_less)
  from null obtain q where q: "q < length (descriptors t)" "descriptors t ! q = NULL"
    by (auto simp: in_set_conv_nth)
  then have "?stop (descriptors t ! q)"
    by simp
  from first_probe[of ?h t q ?stop, OF h q(1) this] obtain n where
    n: "?stop (descriptors t ! probe_slot t ?h n)"
       "\<forall>i<n. \<not> ?stop (descriptors t ! probe_slot t ?h i)"
    by blast
  have "find_loop E t pc ?h = Some (Inr (descriptors t ! probe_slot t ?h n))"
    using n by (intro find_loop_steps[OF shape h]) auto
  then show ?thesis
    by (simp add: caml_find_frame_descr_def)
qed

lemma find_frame_descr_returns_after_build:
  assumes "realloc_frame_descriptors E table fts = Some (Inr table')"
  shows "\<exists>d. caml_find_frame_descr E table' pc = Some (Inr d)"
  using realloc_registry_ok[OF assms] find_frame_descr_returns[of table' E pc]
  by (simp add: registry_ok_def)


section \<open>Lookups after a rebuild\<close>

lemma register_sample_collide:
  "caml_register_frametables sample_env sample_three [6] 1 = Some (Inr sample_collide)"
  by (simp add: registry_eval sample_env_def sample_three_def sample_collide_def)

text \<open>
  C2. Let a registration find the capacity too small, and let the allocation succeed and
  the descriptors, old and new, be at most \<open>2 ^ 29\<close>. Then the registration returns, with
  the table rebuilt: it holds the descriptors of all frametables of the list, old and new,
  each where the probes from its home slot find it, and no placeholder. A lookup of the
  return address of a descriptor that was registered before the call returns a registered
  descriptor with that return address, and the very descriptor when no two registered
  descriptors share a return address.
\<close>

theorem rebuild_keeps_lookups:
  assumes forced: "capacity t < (num_descr t + count_descriptors E (take ntables fts)) * 2"
    and n: "0 < ntables" "ntables \<le> length fts"
    and alloc: "\<forall>n. stat_alloc E n"
    and small: "count_descriptors E (take ntables fts) + count_descriptors E (frametables t)
                  \<le> 2 ^ 29"
    and d: "d \<in> set (active E (frametables t))"
  shows "\<exists>t'. caml_register_frametables E t fts ntables = Some (Inr t')
    \<and> registry_ok E t' \<and> frametables t' = rev (take ntables fts) @ frametables t
    \<and> Dummy_descr \<notin> set (descriptors t')
    \<and> (\<exists>e \<in> set (active E (frametables t')). retaddr_at E e = retaddr_at E d
          \<and> caml_find_frame_descr E t' (retaddr_at E d) = Some (Inr (Descr e)))
    \<and> (distinct (map (retaddr_at E) (active E (frametables t')))
          \<longrightarrow> caml_find_frame_descr E t' (retaddr_at E d) = Some (Inr (Descr d)))"
proof -
  let ?new = "rev (take ntables fts)"
  from n have new: "?new \<noteq> []"
    by (cases fts) auto
  have "count_descriptors E (?new @ frametables t)
      = count_descriptors E (take ntables fts) + count_descriptors E (frametables t)"
    using count_descriptors_rev[of E "take ntables fts"]
    by (simp add: count_descriptors_active active_append)
  with small have "count_descriptors E (?new @ frametables t) \<le> 2 ^ 29"
    by simp
  from realloc_frame_descriptors_returns[OF alloc this, of t] obtain t' where
    "realloc_frame_descriptors E t (?new @ frametables t) = Some (Inr t')"
    by blast
  with forced new n(2) have reg: "caml_register_frametables E t fts ntables = Some (Inr t')"
    by (simp add: caml_register_frametables_def add_frame_descriptors_def
        realloc_frame_descriptors_from_stw_single_def link_tail_def count_descriptors_rev)
  from rebuild_result[OF forced reg d] reg show ?thesis
    by blast
qed

theorem rebuild_keeps_lookups_witness:
  "capacity sample_three < (num_descr sample_three + count_descriptors sample_env (take 1 [6])) * 2
   \<and> (\<forall>n. stat_alloc sample_env n)
   \<and> count_descriptors sample_env (take 1 [6])
        + count_descriptors sample_env (frametables sample_three) \<le> 2 ^ 29
   \<and> 10 \<in> set (active sample_env (frametables sample_three))
   \<and> caml_register_frametables sample_env sample_three [6] 1 = Some (Inr sample_collide)
   \<and> distinct (map (retaddr_at sample_env) (active sample_env (frametables sample_collide)))
   \<and> Hash_retaddr sample_env (retaddr_at sample_env 10) (mask sample_collide) = 10
   \<and> descriptors sample_collide ! 12 = Descr 10
   \<and> caml_find_frame_descr sample_env sample_collide (retaddr_at sample_env 10)
       = Some (Inr (Descr 10))"
proof -
  have a: "capacity sample_three
      < (num_descr sample_three + count_descriptors sample_env (take 1 [6])) * 2"
    by (simp add: capacity_def sample_three_def sample_env_def)
  have b: "\<forall>n. stat_alloc sample_env n"
    by (simp add: sample_env_def)
  have c: "count_descriptors sample_env (take 1 [6])
        + count_descriptors sample_env (frametables sample_three) \<le> 2 ^ 29"
    by (simp add: sample_three_def sample_env_def)
  have d: "10 \<in> set (active sample_env (frametables sample_three))"
    by (simp add: active_def sample_three_def sample_env_def)
  have e: "distinct (map (retaddr_at sample_env) (active sample_env (frametables sample_collide)))"
    by (simp add: active_def sample_collide_def sample_env_def)
  have f: "Hash_retaddr sample_env (retaddr_at sample_env 10) (mask sample_collide) = 10"
    "descriptors sample_collide ! 12 = Descr 10"
    by (simp_all add: Hash_retaddr_def drop_bit_eq_div sample_collide_def sample_env_def)
  have n: "0 < (1::nat)" "1 \<le> length [6::nat]"
    by simp_all
  from rebuild_keeps_lookups[OF a n b c d] obtain t' where
    "caml_register_frametables sample_env sample_three [6] 1 = Some (Inr t')"
    "distinct (map (retaddr_at sample_env) (active sample_env (frametables t')))
       \<longrightarrow> caml_find_frame_descr sample_env t' (retaddr_at sample_env 10) = Some (Inr (Descr 10))"
    by auto
  with register_sample_collide e
  have "caml_find_frame_descr sample_env sample_collide (retaddr_at sample_env 10)
       = Some (Inr (Descr 10))"
    by simp
  with a b c d e f register_sample_collide show ?thesis
    by blast
qed

end
